theory Spec2Isabelle
  imports Main "HOL-Library.Word"
begin

unbundle bit_operations_syntax

section \<open>SPTPS (src/src/sptps.c): data model\<close>

type_synonym byte = "8 word"
type_synonym bytes = "byte list"

text \<open>Error kinds: one per \<^verbatim>\<open>error(...)\<close> call or silent \<^verbatim>\<open>return false\<close> of the source;
  \<open>NullPointer\<close> where the source would read through a NULL pointer, \<open>NoReturn\<close> where a loop of
  the source would not end, \<open>ZeroReturn\<close> for a caller that sees \<^verbatim>\<open>sptps_receive_data\<close> return 0.\<close>

datatype err =
    ShortPacket | BadLength | BadVersion | NoCommonSuite | DuplicateKEX
  | BadSignature | ECDHFailed | PRFFailed | CipherInitFailed | EncryptFailed
  | DecryptFailed | FarFuture | LateOrReplay | InvalidRecordType | InvalidState
  | BadSeqno | SignFailed | KexPending | CallbackFalse | NullPointer | NoReturn | ZeroReturn

text \<open>The handshake phase. \<open>SPTPS_ZERO\<close> is the value 0 that \<^verbatim>\<open>memset\<close> leaves in
  \<^verbatim>\<open>s->state\<close>; the other four are the constants of sptps.h.\<close>

datatype hs_state = SPTPS_ZERO | SPTPS_KEX | SPTPS_SECONDARY_KEX | SPTPS_SIG | SPTPS_ACK

text \<open>\<^verbatim>\<open>struct sptps\<close>. Pointers that may be NULL are options; \<open>labellen\<close> is the length of
  \<open>label\<close>. The callbacks are in the environment; \<open>sent\<close> and \<open>delivered\<close> log the calls of
  \<^verbatim>\<open>send_data\<close> and \<^verbatim>\<open>receive_record\<close>, and \<open>rng\<close> counts the draws from the random source.\<close>

record sptps =
  initiator :: bool
  datagram :: bool
  state :: hs_state
  inbuf :: bytes
  buflen :: nat
  reclen :: "16 word"
  instate :: bool
  incipher :: "bytes option"
  inseqno :: "32 word"
  received :: "32 word"
  replaywin :: "32 word"
  farfuture :: "32 word"
  late :: bytes
  cipher_suite :: byte
  cipher_suites :: "16 word"
  preferred_suite :: byte
  outstate :: bool
  outcipher :: "bytes option"
  outseqno :: "32 word"
  mykey :: bytes
  hiskey :: bytes
  ecdh :: "bytes option"
  mykex :: "bytes option"
  hiskex :: "bytes option"
  key :: "bytes option"
  label :: bytes
  sent :: "(byte \<times> bytes) list"
  delivered :: "(byte \<times> bytes) list"
  rng :: nat

text \<open>\<^verbatim>\<open>sptps_params_t\<close>.\<close>

record sptps_params =
  p_initiator :: bool
  p_datagram :: bool
  p_mykey :: bytes
  p_hiskey :: bytes
  p_label :: bytes
  p_labellen :: nat
  p_cipher_suites :: "16 word"
  p_preferred_suite :: byte

text \<open>What sptps.c takes from outside: the constants of ecdh.h and sptps.h that depend on the
  build, the process-wide \<^verbatim>\<open>sptps_replaywin\<close>, the primitives (AEAD, PRF, ECDH, signatures,
  randomness) and the two callbacks of the host. A primitive that can fail returns an option; a
  callback sees the log of its earlier calls.\<close>

record env =
  ECDH_SIZE :: nat
  ECDH_SHARED_SIZE :: nat
  SPTPS_ALL_CIPHER_SUITES :: "16 word"
  sptps_replaywin :: "32 word"
  aead_suites :: "byte list"
  aead_init :: "byte \<Rightarrow> bytes \<Rightarrow> bytes option"
  aead_encrypt :: "byte \<Rightarrow> bytes \<Rightarrow> bytes \<Rightarrow> bytes \<Rightarrow> bytes option"
  aead_decrypt :: "byte \<Rightarrow> bytes \<Rightarrow> bytes \<Rightarrow> bytes \<Rightarrow> bytes option"
  PRF :: "bytes \<Rightarrow> bytes \<Rightarrow> nat \<Rightarrow> bytes option"
  randomize :: "nat \<Rightarrow> bytes"
  ecdh_generate_public :: "nat \<Rightarrow> (bytes \<times> bytes) option"
  ecdh_compute_shared :: "bytes \<Rightarrow> bytes \<Rightarrow> bytes option"
  ecdsa_size :: "bytes \<Rightarrow> nat"
  ecdsa_sign :: "bytes \<Rightarrow> bytes \<Rightarrow> bytes option"
  ecdsa_verify :: "bytes \<Rightarrow> bytes \<Rightarrow> bytes \<Rightarrow> bool"
  send_data :: "(byte \<times> bytes) list \<Rightarrow> byte \<Rightarrow> bytes \<Rightarrow> bool"
  receive_record :: "(byte \<times> bytes) list \<Rightarrow> byte \<Rightarrow> bytes \<Rightarrow> bool"

type_synonym 'a res = "(err + 'a) \<times> sptps"

subsection \<open>Constants\<close>

definition CIPHER_KEYLEN :: nat where
  "CIPHER_KEYLEN = 64"

text \<open>Modelled from the spec: the constants of sptps.h, which is not under src/. The spec gives
  the version byte 0, the handshake record type 128 and the header sizes 3/19 (stream) and 5/21
  (datagram).\<close>

definition SPTPS_VERSION :: byte where
  "SPTPS_VERSION = 0"

definition SPTPS_HANDSHAKE :: byte where
  "SPTPS_HANDSHAKE = 128"

definition SPTPS_HEADER :: nat where
  "SPTPS_HEADER = 3"

definition SPTPS_OVERHEAD :: nat where
  "SPTPS_OVERHEAD = 19"

definition SPTPS_DATAGRAM_HEADER :: nat where
  "SPTPS_DATAGRAM_HEADER = 5"

definition SPTPS_DATAGRAM_OVERHEAD :: nat where
  "SPTPS_DATAGRAM_OVERHEAD = 21"

subsection \<open>Buffers and byte order\<close>

text \<open>A C buffer of \<open>n\<close> bytes that received \<open>xs\<close>: cut or zero-padded to \<open>n\<close>. It is also
  \<^verbatim>\<open>realloc\<close>, which keeps the old bytes up to the new size.\<close>

definition fix_len :: "nat \<Rightarrow> bytes \<Rightarrow> bytes" where
  "fix_len n xs = take n xs @ replicate (n - length xs) 0"

text \<open>\<^verbatim>\<open>memcpy(buf + off, src, length src)\<close>.\<close>

definition memcpy_at :: "bytes \<Rightarrow> nat \<Rightarrow> bytes \<Rightarrow> bytes" where
  "memcpy_at buf off src = take off buf @ src @ drop (off + length src) buf"

definition le16 :: "16 word \<Rightarrow> bytes" where
  "le16 w = [ucast w, ucast (drop_bit 8 w)]"

definition rd16 :: "bytes \<Rightarrow> 16 word" where
  "rd16 b = ucast (b ! 0) OR push_bit 8 (ucast (b ! 1))"

definition le32 :: "32 word \<Rightarrow> bytes" where
  "le32 w = [ucast w, ucast (drop_bit 8 w), ucast (drop_bit 16 w), ucast (drop_bit 24 w)]"

definition rd32 :: "bytes \<Rightarrow> 32 word" where
  "rd32 b = ucast (b ! 0) OR push_bit 8 (ucast (b ! 1)) OR push_bit 16 (ucast (b ! 2))
      OR push_bit 24 (ucast (b ! 3))"

subsection \<open>Logging and callbacks\<close>

text \<open>\<^verbatim>\<open>s->send_data(s->handle, type, buffer, len)\<close> and
  \<^verbatim>\<open>s->receive_record(s->handle, type, data, len)\<close>: the call is logged, and a false return
  is the error \<open>CallbackFalse\<close>.\<close>

definition call_send_data :: "env \<Rightarrow> sptps \<Rightarrow> byte \<Rightarrow> bytes \<Rightarrow> unit res" where
  "call_send_data e s type frame =
     (if send_data e (sent s) type frame then Inr () else Inl CallbackFalse,
      s\<lparr>sent := sent s @ [(type, frame)]\<rparr>)"

definition call_receive_record :: "env \<Rightarrow> sptps \<Rightarrow> byte \<Rightarrow> bytes \<Rightarrow> unit res" where
  "call_receive_record e s type data =
     (if receive_record e (delivered s) type data then Inr () else Inl CallbackFalse,
      s\<lparr>delivered := delivered s @ [(type, data)]\<rparr>)"

subsection \<open>Cipher adapter\<close>

text \<open>The 12-byte nonce of \<^verbatim>\<open>cipher_encrypt\<close> and \<^verbatim>\<open>cipher_decrypt\<close>.\<close>

definition nonce_of :: "32 word \<Rightarrow> bytes" where
  "nonce_of seqno = le32 seqno @ replicate 8 0"

text \<open>\<^verbatim>\<open>cipher_init\<close>: a suite with no \<^verbatim>\<open>case\<close> in this build fails; \<open>key\<close> is \<^verbatim>\<open>s->key\<close>,
  which the source reads without a NULL check.\<close>

definition cipher_init :: "env \<Rightarrow> byte \<Rightarrow> bytes option \<Rightarrow> bool \<Rightarrow> bytes option" where
  "cipher_init e suite k key_half =
     (case k of
        None \<Rightarrow> None
      | Some kb \<Rightarrow>
          if suite \<in> set (aead_suites e)
          then aead_init e suite (drop (if key_half then CIPHER_KEYLEN else 0) kb)
          else None)"

text \<open>What \<^verbatim>\<open>cipher_init\<close> leaves in \<^verbatim>\<open>*ctx\<close> when it returns false: for a suite with no \<^verbatim>\<open>case\<close>
  the pointer is untouched; for a known suite it has been overwritten by the new allocation,
  and a failed \<open>aead_init\<close> stands for a failed allocation, so the pointer is NULL.\<close>

definition cipher_init_failed :: "env \<Rightarrow> byte \<Rightarrow> bytes option \<Rightarrow> bytes option" where
  "cipher_init_failed e suite ctx = (if suite \<in> set (aead_suites e) then None else ctx)"

definition cipher_encrypt :: "env \<Rightarrow> byte \<Rightarrow> bytes option \<Rightarrow> 32 word \<Rightarrow> bytes \<Rightarrow> bytes option" where
  "cipher_encrypt e suite ctx seqno inp =
     (case ctx of
        None \<Rightarrow> None
      | Some c \<Rightarrow>
          if suite \<in> set (aead_suites e)
          then map_option (fix_len (length inp + 16)) (aead_encrypt e suite c (nonce_of seqno) inp)
          else None)"

definition cipher_decrypt :: "env \<Rightarrow> byte \<Rightarrow> bytes option \<Rightarrow> 32 word \<Rightarrow> bytes \<Rightarrow> bytes option" where
  "cipher_decrypt e suite ctx seqno inp =
     (if length inp < 16 then None
      else case ctx of
        None \<Rightarrow> None
      | Some c \<Rightarrow>
          if suite \<in> set (aead_suites e)
          then map_option (fix_len (length inp - 16)) (aead_decrypt e suite c (nonce_of seqno) inp)
          else None)"

subsection \<open>Record framer: send path\<close>

text \<open>\<^verbatim>\<open>send_record_priv_datagram\<close>. \<open>data\<close> holds at least \<open>len\<close> bytes; the frame is
  \<^verbatim>\<open>[seqno:4][type:1][payload:len]\<close>, encrypted in place from offset 4 when \<open>outstate\<close>.\<close>

definition send_record_priv_datagram :: "env \<Rightarrow> sptps \<Rightarrow> byte \<Rightarrow> bytes \<Rightarrow> 16 word \<Rightarrow> unit res" where
  "send_record_priv_datagram e s type data len =
     (let seqno = outseqno s;
          s1 = s\<lparr>outseqno := outseqno s + 1\<rparr>;
          buffer = le32 seqno @ [type] @ take (unat len) data
      in if outstate s1 then
           (case cipher_encrypt e (cipher_suite s1) (outcipher s1) seqno (drop 4 buffer) of
              None \<Rightarrow> (Inl EncryptFailed, s1)
            | Some ct \<Rightarrow>
                call_send_data e s1 type
                  (take (unat len + SPTPS_DATAGRAM_OVERHEAD) (take 4 buffer @ ct)))
         else call_send_data e s1 type (take (unat len + SPTPS_DATAGRAM_HEADER) buffer))"

text \<open>\<^verbatim>\<open>send_record_priv\<close>: the stream frame is \<^verbatim>\<open>[len:2][type:1][payload:len]\<close>, encrypted in
  place from offset 2 when \<open>outstate\<close>.\<close>

definition send_record_priv :: "env \<Rightarrow> sptps \<Rightarrow> byte \<Rightarrow> bytes \<Rightarrow> 16 word \<Rightarrow> unit res" where
  "send_record_priv e s type data len =
     (if datagram s then send_record_priv_datagram e s type data len
      else
        let seqno = outseqno s;
            s1 = s\<lparr>outseqno := outseqno s + 1\<rparr>;
            netlen = len;
            buffer = le16 netlen @ [type] @ take (unat len) data
        in if outstate s1 then
             (case cipher_encrypt e (cipher_suite s1) (outcipher s1) seqno (drop 2 buffer) of
                None \<Rightarrow> (Inl EncryptFailed, s1)
              | Some ct \<Rightarrow>
                  call_send_data e s1 type (take (unat len + SPTPS_OVERHEAD) (take 2 buffer @ ct)))
           else call_send_data e s1 type (take (unat len + SPTPS_HEADER) buffer))"

definition sptps_send_record :: "env \<Rightarrow> sptps \<Rightarrow> byte \<Rightarrow> bytes \<Rightarrow> 16 word \<Rightarrow> unit res" where
  "sptps_send_record e s type data len =
     (if \<not> outstate s then (Inl InvalidState, s)
      else if type \<ge> SPTPS_HANDSHAKE then (Inl InvalidRecordType, s)
      else send_record_priv e s type data len)"

subsection \<open>Handshake engine\<close>

text \<open>\<^verbatim>\<open>send_kex\<close>: the KEX frame is \<^verbatim>\<open>[version][preferred_suite][cipher_suites:2][nonce:32][pubkey]\<close>.
  The frame is written before the ECDH key is made, so it stays in \<open>mykex\<close> when that fails,
  and \<^verbatim>\<open>s->ecdh\<close> takes the NULL that \<^verbatim>\<open>ecdh_generate_public\<close> returned.\<close>

definition send_kex :: "env \<Rightarrow> sptps \<Rightarrow> unit res" where
  "send_kex e s =
     (let keylen = ECDH_SIZE e in
      if mykex s \<noteq> None then (Inl KexPending, s)
      else
        let hdr = [SPTPS_VERSION, preferred_suite s] @ le16 (cipher_suites s);
            nonce = fix_len 32 (randomize e (rng s));
            s1 = s\<lparr>mykex := Some (hdr @ nonce @ replicate keylen 0), rng := rng s + 1\<rparr>
        in case ecdh_generate_public e (rng s) of
             None \<Rightarrow> (Inl ECDHFailed, s1\<lparr>ecdh := None\<rparr>)
           | Some (priv, pub) \<Rightarrow>
               let kex = hdr @ nonce @ fix_len keylen pub;
                   s2 = s1\<lparr>mykex := Some kex, ecdh := Some priv\<rparr>
               in send_record_priv e s2 SPTPS_HANDSHAKE kex (of_nat (4 + 32 + keylen)))"

text \<open>\<^verbatim>\<open>send_sig\<close>: signs \<^verbatim>\<open>[initiator][mykex][hiskex][label]\<close>. The source copies from both KEX
  buffers without a NULL check.\<close>

definition send_sig :: "env \<Rightarrow> sptps \<Rightarrow> unit res" where
  "send_sig e s =
     (let keylen = ECDH_SIZE e;
          siglen = ecdsa_size e (mykey s)
      in case (mykex s, hiskex s) of
           (Some mk, Some hk) \<Rightarrow>
             (let msg = [if initiator s then 1 else 0] @ fix_len (4 + 32 + keylen) mk
                        @ fix_len (4 + 32 + keylen) hk @ label s
              in case ecdsa_sign e (mykey s) msg of
                   None \<Rightarrow> (Inl SignFailed, s)
                 | Some sg \<Rightarrow> send_record_priv e s SPTPS_HANDSHAKE (fix_len siglen sg) (of_nat siglen))
         | _ \<Rightarrow> (Inl NullPointer, s))"

text \<open>\<^verbatim>\<open>generate_key_material\<close>: the seed is \<^verbatim>\<open>"key expansion"\<close>, then 32 bytes from offset 1 of
  the initiator's KEX frame, then 32 bytes from offset 1 of the responder's, then the label.\<close>

definition generate_key_material :: "env \<Rightarrow> sptps \<Rightarrow> bytes \<Rightarrow> unit res" where
  "generate_key_material e s shared =
     (let keylen = 2 * CIPHER_KEYLEN;
          s1 = s\<lparr>key := Some (fix_len keylen (case key s of None \<Rightarrow> [] | Some k \<Rightarrow> k))\<rparr>
      in case (mykex s1, hiskex s1) of
           (Some mk, Some hk) \<Rightarrow>
             (let seed = map of_char ''key expansion''
                    @ (if initiator s1
                       then take 32 (drop 1 mk) @ take 32 (drop 1 hk)
                       else take 32 (drop 1 hk) @ take 32 (drop 1 mk))
                    @ label s1
              in case PRF e shared seed keylen of
                   None \<Rightarrow> (Inl PRFFailed, s1)
                 | Some k \<Rightarrow> (Inr (), s1\<lparr>key := Some (fix_len keylen k)\<rparr>))
         | _ \<Rightarrow> (Inl NullPointer, s1))"

definition send_ack :: "env \<Rightarrow> sptps \<Rightarrow> unit res" where
  "send_ack e s = send_record_priv e s SPTPS_HANDSHAKE [] 0"

definition receive_ack :: "env \<Rightarrow> sptps \<Rightarrow> bytes \<Rightarrow> 16 word \<Rightarrow> unit res" where
  "receive_ack e s data len =
     (if len \<noteq> 0 then (Inl BadLength, s)
      else case cipher_init e (cipher_suite s) (key s) (initiator s) of
             None \<Rightarrow> (Inl CipherInitFailed,
                      s\<lparr>incipher := cipher_init_failed e (cipher_suite s) (incipher s)\<rparr>)
           | Some ctx \<Rightarrow> (Inr (), s\<lparr>incipher := Some ctx, key := None, instate := True\<rparr>))"

text \<open>The loop of \<^verbatim>\<open>select_cipher_suite\<close>: \<^verbatim>\<open>while(!(mask & 1U)) { selection++; mask >>= 1; }\<close>.
  It does not return on the mask 0.\<close>

partial_function (option) lowest_suite :: "byte \<Rightarrow> 16 word \<Rightarrow> byte option" where
  "lowest_suite selection msk =
     (if msk AND 1 = 0 then lowest_suite (selection + 1) (drop_bit 1 msk) else Some selection)"

declare lowest_suite.simps [code]

text \<open>\<^verbatim>\<open>mask & (1U << pref)\<close> in 32-bit unsigned arithmetic, as C promotes it. For \<open>pref\<close> of 32
  or more the C shift is undefined; the model then answers "not in the mask", and the theorems
  about the negotiation assume a preference below 32.\<close>

definition suite_in_mask :: "16 word \<Rightarrow> byte \<Rightarrow> bool" where
  "suite_in_mask msk pref = ((ucast msk :: 32 word) AND push_bit (unat pref) 1 \<noteq> 0)"

definition select_cipher_suite :: "16 word \<Rightarrow> byte \<Rightarrow> byte \<Rightarrow> byte option" where
  "select_cipher_suite msk pref1 pref2 =
     (let selection = 255;
          selection = (if suite_in_mask msk pref1 then pref1 else selection);
          selection = (if pref2 < selection \<and> suite_in_mask msk pref2 then pref2 else selection)
      in if selection = 255 then lowest_suite 0 msk else Some selection)"

text \<open>\<^verbatim>\<open>receive_kex\<close>. \<open>data\<close> is the record's payload, \<open>len\<close> its length.\<close>

definition receive_kex :: "env \<Rightarrow> sptps \<Rightarrow> bytes \<Rightarrow> 16 word \<Rightarrow> unit res" where
  "receive_kex e s data len =
     (if unat len \<noteq> 4 + 32 + ECDH_SIZE e then (Inl BadLength, s)
      else if data ! 0 \<noteq> SPTPS_VERSION then (Inl BadVersion, s)
      else
        let suites = rd16 (drop 2 data) AND cipher_suites s
        in if suites = 0 then (Inl NoCommonSuite, s)
           else case select_cipher_suite suites (preferred_suite s) (data ! 1 AND 0xf) of
                  None \<Rightarrow> (Inl NoReturn, s)
                | Some suite \<Rightarrow>
                    let s1 = s\<lparr>cipher_suite := suite\<rparr>
                    in if hiskex s1 \<noteq> None then (Inl DuplicateKEX, s1)
                       else
                         let s2 = s1\<lparr>hiskex := Some (take (unat len) data)\<rparr>
                         in if initiator s2 then send_sig e s2 else (Inr (), s2))"

text \<open>\<^verbatim>\<open>receive_sig\<close>: verifies the peer's signature over \<^verbatim>\<open>[!initiator][hiskex][mykex][label]\<close>,
  computes the shared secret, derives the key, answers (responder: SIG; rekey: ACK) and installs
  the outbound cipher.\<close>

definition receive_sig :: "env \<Rightarrow> sptps \<Rightarrow> bytes \<Rightarrow> 16 word \<Rightarrow> unit res" where
  "receive_sig e s data len =
     (let keylen = ECDH_SIZE e;
          siglen = ecdsa_size e (hiskey s)
      in if unat len \<noteq> siglen then (Inl BadLength, s)
         else case (mykex s, hiskex s) of
           (Some mk, Some hk) \<Rightarrow>
             (let msg = [if \<not> initiator s then 1 else 0] @ fix_len (4 + 32 + keylen) hk
                        @ fix_len (4 + 32 + keylen) mk @ label s
              in if \<not> ecdsa_verify e (hiskey s) msg (take siglen data) then (Inl BadSignature, s)
                 else case ecdh s of
                   None \<Rightarrow> (Inl NullPointer, s)
                 | Some priv \<Rightarrow>
                    (case ecdh_compute_shared e priv (take keylen (drop (4 + 32) hk)) of
                       None \<Rightarrow> (Inl ECDHFailed, s)
                     | Some sh \<Rightarrow>
                        (let shared = fix_len (ECDH_SHARED_SIZE e) sh;
                             s1 = s\<lparr>ecdh := None\<rparr>
                         in case generate_key_material e s1 shared of
                              (Inl x, s2) \<Rightarrow> (Inl x, s2)
                            | (Inr _, s2) \<Rightarrow>
                               (case (if \<not> initiator s2 then send_sig e s2 else (Inr (), s2)) of
                                  (Inl x, s3) \<Rightarrow> (Inl x, s3)
                                | (Inr _, s3) \<Rightarrow>
                                   (let s4 = s3\<lparr>mykex := None, hiskex := None\<rparr>
                                    in case (if outstate s4 then send_ack e s4 else (Inr (), s4)) of
                                         (Inl x, s5) \<Rightarrow> (Inl x, s5)
                                       | (Inr _, s5) \<Rightarrow>
                                          (case cipher_init e (cipher_suite s5) (key s5)
                                                  (\<not> initiator s5) of
                                             None \<Rightarrow> (Inl CipherInitFailed,
                                                      s5\<lparr>outcipher := cipher_init_failed e
                                                         (cipher_suite s5) (outcipher s5)\<rparr>)
                                           | Some ctx \<Rightarrow> (Inr (), s5\<lparr>outcipher := Some ctx\<rparr>)))))))
         | _ \<Rightarrow> (Inl NullPointer, s))"

definition sptps_force_kex :: "env \<Rightarrow> sptps \<Rightarrow> unit res" where
  "sptps_force_kex e s =
     (if \<not> outstate s \<or> state s \<noteq> SPTPS_SECONDARY_KEX then (Inl InvalidState, s)
      else send_kex e (s\<lparr>state := SPTPS_KEX\<rparr>))"

text \<open>The \<^verbatim>\<open>case SPTPS_KEX:\<close> arm of \<^verbatim>\<open>receive_handshake\<close>, which \<^verbatim>\<open>case SPTPS_SECONDARY_KEX:\<close>
  falls through to.\<close>

definition receive_handshake_kex :: "env \<Rightarrow> sptps \<Rightarrow> bytes \<Rightarrow> 16 word \<Rightarrow> unit res" where
  "receive_handshake_kex e s data len =
     (case receive_kex e s data len of
        (Inl x, s1) \<Rightarrow> (Inl x, s1)
      | (Inr _, s1) \<Rightarrow> (Inr (), s1\<lparr>state := SPTPS_SIG\<rparr>))"

definition receive_handshake :: "env \<Rightarrow> sptps \<Rightarrow> bytes \<Rightarrow> 16 word \<Rightarrow> unit res" where
  "receive_handshake e s data len =
     (case state s of
        SPTPS_SECONDARY_KEX \<Rightarrow>
          (case send_kex e s of
             (Inl x, s1) \<Rightarrow> (Inl x, s1)
           | (Inr _, s1) \<Rightarrow> receive_handshake_kex e s1 data len)
      | SPTPS_KEX \<Rightarrow> receive_handshake_kex e s data len
      | SPTPS_SIG \<Rightarrow>
          (case receive_sig e s data len of
             (Inl x, s1) \<Rightarrow> (Inl x, s1)
           | (Inr _, s1) \<Rightarrow>
               if outstate s1 then (Inr (), s1\<lparr>state := SPTPS_ACK\<rparr>)
               else
                 (case receive_ack e (s1\<lparr>outstate := True\<rparr>) [] 0 of
                    (Inl x, s2) \<Rightarrow> (Inl x, s2)
                  | (Inr _, s2) \<Rightarrow>
                      (Inr (), (snd (call_receive_record e s2 SPTPS_HANDSHAKE []))
                                 \<lparr>state := SPTPS_SECONDARY_KEX\<rparr>)))
      | SPTPS_ACK \<Rightarrow>
          (case receive_ack e s data len of
             (Inl x, s1) \<Rightarrow> (Inl x, s1)
           | (Inr _, s1) \<Rightarrow>
               (Inr (), (snd (call_receive_record e s1 SPTPS_HANDSHAKE []))
                          \<lparr>state := SPTPS_SECONDARY_KEX\<rparr>))
      | SPTPS_ZERO \<Rightarrow> (Inl InvalidState, s))"

subsection \<open>Replay window\<close>

text \<open>The byte of \<^verbatim>\<open>s->late\<close> and the bit in it that stand for a sequence number:
  \<^verbatim>\<open>s->late[(seqno / 8) % s->replaywin]\<close> and \<^verbatim>\<open>1 << seqno % 8\<close>.\<close>

definition late_index :: "32 word \<Rightarrow> 32 word \<Rightarrow> nat" where
  "late_index win seqno = unat ((seqno div 8) mod win)"

definition late_bitmask :: "32 word \<Rightarrow> byte" where
  "late_bitmask seqno = push_bit (unat (seqno mod 8)) 1"

text \<open>\<^verbatim>\<open>for(uint32_t i = s->inseqno; i < seqno; i++) s->late[(i / 8) % s->replaywin] |= 1 << i % 8;\<close>\<close>

function mark_late :: "32 word \<Rightarrow> bytes \<Rightarrow> 32 word \<Rightarrow> 32 word \<Rightarrow> bytes" where
  "mark_late win lt i seqno =
     (if i < seqno
      then mark_late win (lt[late_index win i := lt ! late_index win i OR late_bitmask i]) (i + 1) seqno
      else lt)"
  by pat_completeness auto
termination
proof (relation "measure (\<lambda>(win, lt, i, seqno). unat seqno - unat i)")
  fix win :: "32 word" and lt :: bytes and i seqno :: "32 word"
  assume "i < seqno"
  then have "unat i < unat seqno"
    by (simp add: word_less_nat_alt)
  moreover have "unat seqno < 2 ^ 32"
    using unsigned_less [of seqno] by simp
  ultimately have "unat (i + 1) = Suc (unat i)"
    by (simp add: unat_word_ariths)
  with \<open>unat i < unat seqno\<close>
  show "((win, lt[late_index win i := lt ! late_index win i OR late_bitmask i], i + 1, seqno),
         (win, lt, i, seqno)) \<in> measure (\<lambda>(win, lt, i, seqno). unat seqno - unat i)"
    by simp
qed simp

declare mark_late.simps [simp del]

text \<open>The branch \<^verbatim>\<open>if(seqno != s->inseqno)\<close> of \<^verbatim>\<open>sptps_check_seqno\<close>: an early return is
  \<open>Inl\<close>, with the state it leaves.\<close>

definition check_seqno_window :: "sptps \<Rightarrow> 32 word \<Rightarrow> bool \<Rightarrow> unit res" where
  "check_seqno_window s seqno update_state =
     (if seqno \<ge> inseqno s + replaywin s * 8 then
        (let far = farfuture s < drop_bit 2 (replaywin s);
             s1 = (if update_state then s\<lparr>farfuture := farfuture s + 1\<rparr> else s)
         in if far then (Inl FarFuture, s1)
            else if update_state
              then (Inr (), s1\<lparr>late := replicate (unat (replaywin s1)) 255
                                       @ drop (unat (replaywin s1)) (late s1)\<rparr>)
              else (Inr (), s1))
      else if seqno < inseqno s then
        (if (inseqno s \<ge> replaywin s * 8 \<and> seqno < inseqno s - replaywin s * 8)
            \<or> late s ! late_index (replaywin s) seqno AND late_bitmask seqno = 0
         then (Inl LateOrReplay, s)
         else (Inr (), s))
      else if update_state
        then (Inr (), s\<lparr>late := mark_late (replaywin s) (late s) (inseqno s) seqno\<rparr>)
        else (Inr (), s))"

definition sptps_check_seqno :: "sptps \<Rightarrow> 32 word \<Rightarrow> bool \<Rightarrow> unit res" where
  "sptps_check_seqno s seqno update_state =
     (case (if replaywin s \<noteq> 0 then
              (case (if seqno \<noteq> inseqno s then check_seqno_window s seqno update_state
                     else (Inr (), s)) of
                 (Inl x, s1) \<Rightarrow> (Inl x, s1)
               | (Inr _, s1) \<Rightarrow>
                   if update_state
                   then (Inr (), s1\<lparr>late := (late s1)[late_index (replaywin s1) seqno :=
                                          late s1 ! late_index (replaywin s1) seqno
                                            AND NOT (late_bitmask seqno)],
                                     farfuture := 0\<rparr>)
                   else (Inr (), s1))
            else (Inr (), s)) of
        (Inl x, s2) \<Rightarrow> (Inl x, s2)
      | (Inr _, s2) \<Rightarrow>
          if update_state then
            (let s3 = (if seqno \<ge> inseqno s2 then s2\<lparr>inseqno := seqno + 1\<rparr> else s2)
             in (Inr (), if inseqno s3 = 0 then s3\<lparr>received := 0\<rparr>
                         else s3\<lparr>received := received s3 + 1\<rparr>))
          else (Inr (), s2))"

subsection \<open>Receive path\<close>

definition sptps_verify_datagram :: "env \<Rightarrow> sptps \<Rightarrow> bytes \<Rightarrow> unit res" where
  "sptps_verify_datagram e s data =
     (if \<not> instate s \<or> length data < 21 then (Inl ShortPacket, s)
      else
        let seqno = rd32 data
        in case sptps_check_seqno s seqno False of
             (Inl x, s1) \<Rightarrow> (Inl x, s1)
           | (Inr _, s1) \<Rightarrow>
               (case cipher_decrypt e (cipher_suite s1) (incipher s1) seqno (drop 4 data) of
                  None \<Rightarrow> (Inl DecryptFailed, s1)
                | Some _ \<Rightarrow> (Inr (), s1)))"

text \<open>The dispatch on the record type that ends both receive functions.\<close>

definition dispatch_record :: "env \<Rightarrow> sptps \<Rightarrow> byte \<Rightarrow> bytes \<Rightarrow> 16 word \<Rightarrow> unit res" where
  "dispatch_record e s type data len =
     (if type < SPTPS_HANDSHAKE then
        (if \<not> instate s then (Inl InvalidRecordType, s)
         else call_receive_record e s type (take (unat len) data))
      else if type = SPTPS_HANDSHAKE then receive_handshake e s data len
      else (Inl InvalidRecordType, s))"

definition sptps_receive_data_datagram :: "env \<Rightarrow> sptps \<Rightarrow> bytes \<Rightarrow> unit res" where
  "sptps_receive_data_datagram e s data0 =
     (if length data0 < (if instate s then 21 else 5) then (Inl ShortPacket, s)
      else
        let seqno = rd32 data0;
            data = drop 4 data0
        in if \<not> instate s then
             (if seqno \<noteq> inseqno s then (Inl BadSeqno, s)
              else
                let s1 = s\<lparr>inseqno := seqno + 1\<rparr>;
                    type = data ! 0;
                    data1 = drop 1 data
                in if type \<noteq> SPTPS_HANDSHAKE then (Inl InvalidRecordType, s1)
                   else receive_handshake e s1 data1 (of_nat (length data1)))
           else
             (case cipher_decrypt e (cipher_suite s) (incipher s) seqno data of
                None \<Rightarrow> (Inl DecryptFailed, s)
              | Some buffer \<Rightarrow>
                  (case sptps_check_seqno s seqno True of
                     (Inl x, s1) \<Rightarrow> (Inl x, s1)
                   | (Inr _, s1) \<Rightarrow>
                       dispatch_record e s1 (buffer ! 0) (drop 1 buffer)
                         (of_nat (length buffer - 1)))))"

text \<open>The end of \<^verbatim>\<open>sptps_receive_data\<close>, from "Update sequence number": the buffer holds a
  whole record, which is decrypted in place (when \<open>instate\<close>), terminated by a NUL byte and
  dispatched; \<open>total_read\<close> is what the call returns on success.\<close>

definition process_record :: "env \<Rightarrow> sptps \<Rightarrow> nat \<Rightarrow> nat res" where
  "process_record e s1 total_read =
     (let seqno = inseqno s1;
          s2 = s1\<lparr>inseqno := inseqno s1 + 1\<rparr>
      in case (if instate s2 then
                 (case cipher_decrypt e (cipher_suite s2) (incipher s2) seqno
                         (take (unat (reclen s2) + 17) (drop 2 (inbuf s2))) of
                    None \<Rightarrow> None
                  | Some pt \<Rightarrow> Some (s2\<lparr>inbuf := memcpy_at (inbuf s2) 2 pt\<rparr>))
               else Some s2) of
           None \<Rightarrow> (Inl DecryptFailed, s2)
         | Some s3 \<Rightarrow>
             (let s4 = s3\<lparr>inbuf := (inbuf s3)[unat (reclen s3) + SPTPS_HEADER := 0]\<rparr>;
                  type = inbuf s4 ! 2
              in case dispatch_record e s4 type (take (unat (reclen s4)) (drop 3 (inbuf s4)))
                        (reclen s4) of
                   (Inl x, s5) \<Rightarrow> (Inl x, s5)
                 | (Inr _, s5) \<Rightarrow> (Inr total_read, s5\<lparr>buflen := 0\<rparr>)))"

text \<open>The second half of \<^verbatim>\<open>sptps_receive_data\<close>, from "Read up to the end of the record".
  \<^verbatim>\<open>toread\<close> is a \<^verbatim>\<open>size_t\<close>: were \<open>buflen\<close> beyond the record's end, the subtraction would wrap
  and \<^verbatim>\<open>toread\<close> become \<open>len\<close>.\<close>

definition receive_data_record :: "env \<Rightarrow> sptps \<Rightarrow> bytes \<Rightarrow> nat \<Rightarrow> nat res" where
  "receive_data_record e s data total_read0 =
     (let need = unat (reclen s) + (if instate s then SPTPS_OVERHEAD else SPTPS_HEADER);
          toread = (if need < buflen s then length data else min (need - buflen s) (length data));
          s1 = s\<lparr>inbuf := memcpy_at (inbuf s) (buflen s) (take toread data),
                 buflen := buflen s + toread\<rparr>;
          total_read = total_read0 + toread
      in if buflen s1 < need then (Inr total_read, s1)
         else process_record e s1 total_read)"

text \<open>\<^verbatim>\<open>sptps_receive_data\<close>. The C function returns a \<^verbatim>\<open>size_t\<close>: \<open>Inr n\<close> is the return of \<open>n\<close>
  bytes read, and every \<open>Inl\<close> is the return of \<^verbatim>\<open>false\<close>, that is 0.\<close>

definition sptps_receive_data :: "env \<Rightarrow> sptps \<Rightarrow> bytes \<Rightarrow> nat res" where
  "sptps_receive_data e s data =
     (if state s = SPTPS_ZERO then (Inl InvalidState, s)
      else if datagram s then
        (case sptps_receive_data_datagram e s data of
           (Inl x, s1) \<Rightarrow> (Inl x, s1)
         | (Inr _, s1) \<Rightarrow> (Inr (length data), s1))
      else if buflen s < 2 then
        (let toread = min (2 - buflen s) (length data);
             s1 = s\<lparr>inbuf := memcpy_at (inbuf s) (buflen s) (take toread data),
                    buflen := buflen s + toread\<rparr>;
             data1 = drop toread data
         in if buflen s1 < 2 then (Inr toread, s1)
            else
              let s2 = s1\<lparr>reclen := rd16 (inbuf s1)\<rparr>;
                  s3 = s2\<lparr>inbuf := fix_len (unat (reclen s2) + SPTPS_OVERHEAD) (inbuf s2)\<rparr>
              in if data1 = [] then (Inr toread, s3)
                 else receive_data_record e s3 data1 toread)
      else receive_data_record e s data 0)"

definition sptps_return :: "nat res \<Rightarrow> nat" where
  "sptps_return r = (case fst r of Inl _ \<Rightarrow> 0 | Inr n \<Rightarrow> n)"

subsection \<open>Session facade\<close>

definition sptps_zero :: sptps where
  "sptps_zero =
     \<lparr>initiator = False, datagram = False, state = SPTPS_ZERO, inbuf = [], buflen = 0,
      reclen = 0, instate = False, incipher = None, inseqno = 0, received = 0, replaywin = 0,
      farfuture = 0, late = [], cipher_suite = 0, cipher_suites = 0, preferred_suite = 0,
      outstate = False, outcipher = None, outseqno = 0, mykey = [], hiskey = [], ecdh = None,
      mykex = None, hiskex = None, key = None, label = [], sent = [], delivered = [], rng = 0\<rparr>"

text \<open>\<^verbatim>\<open>sptps_start\<close>. The struct is zeroed first; the logs and the random source belong to
  the host and start empty. Allocation is taken to succeed.\<close>

definition sptps_start :: "env \<Rightarrow> sptps_params \<Rightarrow> unit res" where
  "sptps_start e params =
     (let s = sptps_zero
            \<lparr>initiator := p_initiator params,
             datagram := p_datagram params,
             mykey := p_mykey params,
             hiskey := p_hiskey params,
             replaywin := sptps_replaywin e,
             cipher_suites := (if p_cipher_suites params \<noteq> 0
                               then p_cipher_suites params AND SPTPS_ALL_CIPHER_SUITES e
                               else SPTPS_ALL_CIPHER_SUITES e),
             preferred_suite := p_preferred_suite params\<rparr>;
          s = (if replaywin s \<noteq> 0 then s\<lparr>late := replicate (unat (replaywin s)) 0\<rparr> else s);
          labellen = (if p_labellen params \<noteq> 0 then p_labellen params
                      else length (takeWhile (\<lambda>b. b \<noteq> 0) (p_label params)));
          s = s\<lparr>label := take labellen (p_label params)\<rparr>;
          s = (if \<not> datagram s then s\<lparr>inbuf := replicate 7 0, buflen := 0\<rparr> else s)
      in send_kex e (s\<lparr>state := SPTPS_KEX\<rparr>))"

text \<open>\<^verbatim>\<open>sptps_stop\<close> frees every buffer and zeroes the struct; the host's logs stay.\<close>

definition sptps_stop :: "sptps \<Rightarrow> unit res" where
  "sptps_stop s = (Inr (), sptps_zero\<lparr>sent := sent s, delivered := delivered s, rng := rng s\<rparr>)"

subsection \<open>Sessions as sequences of calls\<close>

text \<open>The entry points a host may call on a started session, and a session's life: \<^verbatim>\<open>sptps_start\<close>,
  then any calls, whatever each returns.\<close>

datatype call =
    SendRecord byte bytes "16 word"
  | ReceiveData bytes
  | VerifyDatagram bytes
  | ForceKex
  | Stop

fun exec :: "env \<Rightarrow> sptps \<Rightarrow> call \<Rightarrow> sptps" where
  "exec e s (SendRecord type data len) = snd (sptps_send_record e s type data len)"
| "exec e s (ReceiveData data) = snd (sptps_receive_data e s data)"
| "exec e s (VerifyDatagram data) = snd (sptps_verify_datagram e s data)"
| "exec e s ForceKex = snd (sptps_force_kex e s)"
| "exec e s Stop = snd (sptps_stop s)"

definition run :: "env \<Rightarrow> sptps_params \<Rightarrow> call list \<Rightarrow> sptps" where
  "run e params calls = foldl (exec e) (snd (sptps_start e params)) calls"

subsection \<open>Histories of the replay window\<close>

text \<open>A history of sequence numbers presented to \<^verbatim>\<open>sptps_check_seqno\<close> with
  \<open>update_state\<close>, as the datagram receive path does after each successful decryption: the
  results, and the state it leaves.\<close>

fun check_seqnos :: "sptps \<Rightarrow> 32 word list \<Rightarrow> (err + unit) list \<times> sptps" where
  "check_seqnos s [] = ([], s)"
| "check_seqnos s (q # qs) =
     (case sptps_check_seqno s q True of
        (r, s1) \<Rightarrow> (case check_seqnos s1 qs of (rs, s2) \<Rightarrow> (r # rs, s2)))"

fun accepted_seqnos :: "sptps \<Rightarrow> 32 word list \<Rightarrow> 32 word list" where
  "accepted_seqnos s [] = []"
| "accepted_seqnos s (q # qs) =
     (case sptps_check_seqno s q True of
        (Inl _, s1) \<Rightarrow> accepted_seqnos s1 qs
      | (Inr _, s1) \<Rightarrow> q # accepted_seqnos s1 qs)"

subsection \<open>An example environment\<close>

text \<open>Primitives simple enough to compute with: the AEAD appends a tag of 16 zero bytes and
  checks it, the PRF returns seed and secret, signatures are a fixed string.\<close>

definition toy_env :: env where
  "toy_env =
     \<lparr>ECDH_SIZE = 32, ECDH_SHARED_SIZE = 32, SPTPS_ALL_CIPHER_SUITES = 3, sptps_replaywin = 16,
      aead_suites = [0, 1],
      aead_init = (\<lambda>suite k. Some (take 32 k)),
      aead_encrypt = (\<lambda>suite c nonce inp. Some (inp @ replicate 16 0)),
      aead_decrypt = (\<lambda>suite c nonce inp.
         if drop (length inp - 16) inp = replicate 16 0 then Some (take (length inp - 16) inp)
         else None),
      PRF = (\<lambda>secret seed n. Some (seed @ secret)),
      randomize = (\<lambda>n. replicate 32 (of_nat n + 170)),
      ecdh_generate_public = (\<lambda>n. Some (replicate 32 (of_nat n + 1), replicate 32 (of_nat n + 2))),
      ecdh_compute_shared = (\<lambda>priv pub. Some (map2 (+) priv pub)),
      ecdsa_size = (\<lambda>k. 64),
      ecdsa_sign = (\<lambda>k msg. Some (replicate 64 7)),
      ecdsa_verify = (\<lambda>k msg sg. sg = replicate 64 7),
      send_data = (\<lambda>log type frame. True),
      receive_record = (\<lambda>log type data. True)\<rparr>"

definition keyed_datagram :: sptps where
  "keyed_datagram =
     sptps_zero\<lparr>datagram := True, state := SPTPS_SECONDARY_KEX, instate := True,
                incipher := Some (replicate 32 1), outstate := True,
                outcipher := Some (replicate 32 2), inseqno := 2, outseqno := 2,
                replaywin := 16, late := replicate 16 0\<rparr>"

text \<open>A keyed datagram record with sequence number 2, type 0 and payload "hi", and the same
  record with one bit of its tag flipped; a datagram session that has not finished its handshake.\<close>

definition genuine_packet :: bytes where
  "genuine_packet = le32 2 @ [0, 104, 105] @ replicate 16 0"

definition tampered_packet :: bytes where
  "tampered_packet = le32 2 @ [0, 104, 105] @ [1] @ replicate 15 0"

definition unkeyed_datagram :: sptps where
  "unkeyed_datagram = sptps_zero\<lparr>datagram := True, state := SPTPS_KEX, inseqno := 0, 
       replaywin := 16, late := replicate 16 0\<rparr>"

subsection \<open>Framing of the send path\<close>

text \<open>The send path writes \<open>outseqno\<close> and the log of \<^verbatim>\<open>send_data\<close> only: two sessions agree
  on every other field when they agree after these two are blanked.\<close>

definition mask_out :: "sptps \<Rightarrow> sptps" where
  "mask_out s = s\<lparr>outseqno := 0, sent := []\<rparr>"


text \<open>A responder in stream mode, just started, that prefers suite 1, and a peer's KEX frame
  that offers suites 0 and 1 and prefers suite 0.\<close>

definition responder_params :: sptps_params where
  "responder_params =
     \<lparr>p_initiator = False, p_datagram = False, p_mykey = [1], p_hiskey = [2],
      p_label = [116, 101, 115, 116], p_labellen = 4, p_cipher_suites = 0,
      p_preferred_suite = 1\<rparr>"

definition responder_start :: sptps where
  "responder_start = snd (sptps_start toy_env responder_params)"

definition peer_kex :: bytes where
  "peer_kex = [0, 0, 3, 0] @ replicate 32 187 @ replicate 32 9"

subsection \<open>Key derivation as the specification words it\<close>

text \<open>Modelled from the spec: \<^verbatim>\<open>key[0..128] = PRF(Z, "key expansion" || initiator_nonce ||
  responder_nonce || label)\<close>, each nonce being the nonce field of the KEX frame
  \<^verbatim>\<open>[version:1][peer_pref_suite:1][suites_bitmask:2][nonce:32][ecdh_pub]\<close>, that is bytes 4..35.
  It is the right-hand side that \<^verbatim>\<open>generate_key_material\<close> is compared with.\<close>

definition spec_key_seed :: "bytes \<Rightarrow> bytes \<Rightarrow> bytes \<Rightarrow> bytes" where
  "spec_key_seed initiator_kex responder_kex lbl =
     map of_char ''key expansion'' @ take 32 (drop 4 initiator_kex)
       @ take 32 (drop 4 responder_kex) @ lbl"

definition spec_key_material :: "env \<Rightarrow> sptps \<Rightarrow> bytes \<Rightarrow> bytes option" where
  "spec_key_material e s shared =
     (case (mykex s, hiskex s) of
        (Some mk, Some hk) \<Rightarrow>
          map_option (fix_len 128)
            (PRF e shared (if initiator s then spec_key_seed mk hk (label s)
                           else spec_key_seed hk mk (label s)) 128)
      | _ \<Rightarrow> None)"

text \<open>The responder after it has received the peer's KEX record, and the initiator's view of
  the same exchange: the two KEX frames swapped.\<close>

definition awaiting_sig :: sptps where
  "awaiting_sig = run toy_env responder_params [ReceiveData (le16 68 @ [128] @ peer_kex)]"


subsection \<open>The handshake invariant on the key buffer\<close>

text \<open>\<^verbatim>\<open>s->key\<close> is non-NULL only while a derived key waits for the ACK (state ACK), or in
  state SIG after \<^verbatim>\<open>receive_sig\<close> has consumed the ECDH key and then failed. \<open>hs_same\<close> says
  that a step touched none of the three fields involved.\<close>

definition hs_inv :: "sptps \<Rightarrow> bool" where
  "hs_inv s = (key s = None \<or> state s = SPTPS_ACK \<or> (state s = SPTPS_SIG \<and> ecdh s = None))"

definition hs_same :: "sptps \<Rightarrow> sptps \<Rightarrow> bool" where
  "hs_same s s' = (state s' = state s \<and> key s' = key s \<and> ecdh s' = ecdh s)"

text \<open>The part of \<^verbatim>\<open>receive_sig\<close> that follows the computation of the shared secret.\<close>

definition receive_sig_keys :: "env \<Rightarrow> sptps \<Rightarrow> bytes \<Rightarrow> unit res" where
  "receive_sig_keys e s1 shared =
     (case generate_key_material e s1 shared of
        (Inl x, s2) \<Rightarrow> (Inl x, s2)
      | (Inr _, s2) \<Rightarrow>
         (case (if \<not> initiator s2 then send_sig e s2 else (Inr (), s2)) of
            (Inl x, s3) \<Rightarrow> (Inl x, s3)
          | (Inr _, s3) \<Rightarrow>
             (let s4 = s3\<lparr>mykex := None, hiskex := None\<rparr>
              in case (if outstate s4 then send_ack e s4 else (Inr (), s4)) of
                   (Inl x, s5) \<Rightarrow> (Inl x, s5)
                 | (Inr _, s5) \<Rightarrow>
                    (case cipher_init e (cipher_suite s5) (key s5) (\<not> initiator s5) of
                       None \<Rightarrow> (Inl CipherInitFailed,
                                                      s5\<lparr>outcipher := cipher_init_failed e
                                                         (cipher_suite s5) (outcipher s5)\<rparr>)
                     | Some ctx \<Rightarrow> (Inr (), s5\<lparr>outcipher := Some ctx\<rparr>)))))"

text \<open>The records a peer sends the responder in a first handshake (KEX, SIG) and in a rekey
  (KEX and SIG again, now encrypted), the responder after the first two and after all four.\<close>

definition handshake_calls :: "call list" where
  "handshake_calls =
     [ReceiveData (le16 68 @ [128] @ peer_kex),
      ReceiveData (le16 64 @ [128] @ replicate 64 7)]"

definition rekey_calls :: "call list" where
  "rekey_calls =
     [ReceiveData (le16 68 @ [128] @ peer_kex @ replicate 16 0),
      ReceiveData (le16 64 @ [128] @ replicate 64 7 @ replicate 16 0)]"

definition keyed_stream :: sptps where
  "keyed_stream = run toy_env responder_params handshake_calls"

definition rekey_pending :: sptps where
  "rekey_pending = run toy_env responder_params (handshake_calls @ rekey_calls)"

definition handshake_view :: "sptps \<Rightarrow> hs_state \<times> bool \<times> bool \<times> bool \<times> bool" where
  "handshake_view s = (state s, instate s, outstate s, key s = None, ecdh s = None)"

subsection \<open>The replay bitmap on natural numbers\<close>

text \<open>Bit \<open>x mod 8\<close> of byte \<open>x div 8 mod w\<close>: the bit of \<^verbatim>\<open>s->late\<close> that stands for sequence
  number \<open>x\<close> with a window of \<open>w\<close> bytes, and the bitmap with that bit cleared.\<close>

definition lbit :: "bytes \<Rightarrow> nat \<Rightarrow> nat \<Rightarrow> bool" where
  "lbit lt w x = bit (lt ! (x div 8 mod w)) (x mod 8)"

definition late_clear :: "bytes \<Rightarrow> nat \<Rightarrow> nat \<Rightarrow> bytes" where
  "late_clear lt w x = lt[x div 8 mod w := lt ! (x div 8 mod w) AND NOT (2 ^ (x mod 8))]"

text \<open>The invariant of the window for a set \<open>A\<close> of accepted sequence numbers: the window is
  enabled and allocated, \<open>inseqno + 8 * replaywin\<close> does not wrap, and every accepted number is
  below \<open>inseqno\<close> and, while still inside the window, has its bit clear.\<close>

definition replay_inv :: "sptps \<Rightarrow> 32 word set \<Rightarrow> bool" where
  "replay_inv s A =
     (replaywin s \<noteq> 0 \<and> length (late s) = unat (replaywin s)
      \<and> unat (inseqno s) + 8 * unat (replaywin s) < 2 ^ 32
      \<and> (\<forall>a\<in>A. unat a < unat (inseqno s)
            \<and> (unat (inseqno s) \<le> unat a + 8 * unat (replaywin s) \<longrightarrow>
                 \<not> lbit (late s) (unat (replaywin s)) (unat a))))"

text \<open>A datagram responder whose process has \<^verbatim>\<open>sptps_replaywin = 0\<close>: the handshake, then
  the same application record twice.\<close>

definition replay_off_calls :: "call list" where
  "replay_off_calls =
     [ReceiveData (le32 0 @ [128] @ peer_kex),
      ReceiveData (le32 1 @ [128] @ replicate 64 7),
      ReceiveData genuine_packet,
      ReceiveData genuine_packet]"

definition replay_off :: sptps where
  "replay_off = run (toy_env\<lparr>sptps_replaywin := 0\<rparr>) (responder_params\<lparr>p_datagram := True\<rparr>)
                  replay_off_calls"

text \<open>A datagram responder with the default window of 16 bytes: the handshake, then \<open>n\<close>
  times the same application record, whose sequence number is \<open>2^32 - 32\<close>; and what a test
  reads off a session.\<close>

definition wrap_packet :: bytes where
  "wrap_packet = le32 4294967264 @ [0, 104, 105] @ replicate 16 0"

definition wrap_calls :: "nat \<Rightarrow> call list" where
  "wrap_calls n =
     [ReceiveData (le32 0 @ [128] @ peer_kex),
      ReceiveData (le32 1 @ [128] @ replicate 64 7)] @ replicate n (ReceiveData wrap_packet)"

definition wrap_session :: "nat \<Rightarrow> sptps" where
  "wrap_session n = run toy_env (responder_params\<lparr>p_datagram := True\<rparr>) (wrap_calls n)"

definition replay_view :: "sptps \<Rightarrow> 32 word \<times> 32 word \<times> (byte \<times> bytes) list" where
  "replay_view s = (inseqno s, farfuture s, delivered s)"

subsection \<open>Framing of the handshake\<close>

text \<open>The handshake writes the fields blanked here, and the log of deliveries at most: two
  sessions agree on every other field (the reassembly buffer, the inbound sequence number,
  the replay window, the immutable parameters) when they agree after blanking.\<close>

definition mask_hs :: "sptps \<Rightarrow> sptps" where
  "mask_hs s = s\<lparr>state := SPTPS_ZERO, key := None, ecdh := None, mykex := None, hiskex := None,
                 cipher_suite := 0, incipher := None, outcipher := None, instate := False,
                 outstate := False, outseqno := 0, sent := [], rng := 0\<rparr>"

definition mask_hsd :: "sptps \<Rightarrow> sptps" where
  "mask_hsd s = (mask_hs s)\<lparr>delivered := []\<rparr>"

text \<open>What a step may do to the log of deliveries: nothing, or one more entry.\<close>

definition one_more :: "sptps \<Rightarrow> sptps \<Rightarrow> bool" where
  "one_more s s' = (delivered s' = delivered s \<or> (\<exists>x. delivered s' = delivered s @ [x]))"

text \<open>The \<^verbatim>\<open>toread\<close> of the second half of \<^verbatim>\<open>sptps_receive_data\<close>.\<close>

definition record_toread :: "sptps \<Rightarrow> bytes \<Rightarrow> nat" where
  "record_toread s d =
     (let need = unat (reclen s) + (if instate s then SPTPS_OVERHEAD else SPTPS_HEADER)
      in if need < buflen s then length d else min (need - buflen s) (length d))"

text \<open>Two keyed stream records in one buffer: type 0 with payload "hi", type 1 with payload
  "!"; and what a test reads off the result of a call.\<close>

definition two_records :: bytes where
  "two_records = ([2, 0] @ [0, 104, 105] @ replicate 16 0) @ ([1, 0] @ [1, 33] @ replicate 16 0)"

definition stream_view :: "nat res \<Rightarrow> (err + nat) \<times> (byte \<times> bytes) list \<times> nat \<times> 32 word" where
  "stream_view r = (fst r, delivered (snd r), buflen (snd r), inseqno (snd r))"

subsection \<open>A stream of records between two peers\<close>

text \<open>A sender that calls \<^verbatim>\<open>sptps_send_record\<close> once for each record of a list, with \<open>len\<close> the
  length of the payload, whatever each call returns.\<close>

fun send_all :: "env \<Rightarrow> sptps \<Rightarrow> (byte \<times> bytes) list \<Rightarrow> sptps" where
  "send_all e s [] = s"
| "send_all e s ((t, d) # recs) =
     send_all e (snd (sptps_send_record e s t d (of_nat (length d)))) recs"

text \<open>A receiver that hands a chunk of the byte stream to \<^verbatim>\<open>sptps_receive_data\<close> and calls it
  again with the unconsumed tail until the chunk is used up, as the function's contract asks.
  It stops at the first error; a return of 0 for a non-empty chunk is the C function's error
  return, \<open>ZeroReturn\<close> when the model has no other error for it. An empty chunk is not handed
  over. \<open>feed\<close> does this for a list of chunks in turn.\<close>

function pump :: "env \<Rightarrow> sptps \<Rightarrow> bytes \<Rightarrow> unit res" where
  "pump e r data =
     (if data = [] then (Inr (), r)
      else case sptps_receive_data e r data of
             (Inl x, r') \<Rightarrow> (Inl x, r')
           | (Inr n, r') \<Rightarrow> if n = 0 then (Inl ZeroReturn, r') else pump e r' (drop n data))"
  by pat_completeness auto
termination
  by (relation "measure (\<lambda>(e, r, data). length data)") auto

declare pump.simps [simp del]

fun feed :: "env \<Rightarrow> sptps \<Rightarrow> bytes list \<Rightarrow> unit res" where
  "feed e r [] = (Inr (), r)"
| "feed e r (c # cs) =
     (case pump e r c of (Inl x, r') \<Rightarrow> (Inl x, r') | (Inr _, r') \<Rightarrow> feed e r' cs)"

text \<open>The frame of one encrypted stream record, \<^verbatim>\<open>[len:2][AEAD(type || payload)]\<close>, for an
  encryption function \<open>E\<close> of sequence number and plaintext; the frames of a list of records
  sent under consecutive sequence numbers, as the log of \<^verbatim>\<open>send_data\<close> holds them; and their
  concatenation, the byte stream.\<close>

definition stream_frame :: "(32 word \<Rightarrow> bytes \<Rightarrow> bytes option) \<Rightarrow> 32 word \<Rightarrow> byte \<times> bytes \<Rightarrow> bytes" where
  "stream_frame E q rec =
     le16 (of_nat (length (snd rec)))
       @ (case E q (fst rec # snd rec) of None \<Rightarrow> [] | Some ct \<Rightarrow> ct)"

fun stream_frames :: "(32 word \<Rightarrow> bytes \<Rightarrow> bytes option) \<Rightarrow> 32 word \<Rightarrow> (byte \<times> bytes) list
    \<Rightarrow> (byte \<times> bytes) list" where
  "stream_frames E q [] = []"
| "stream_frames E q (rec # recs) = (fst rec, stream_frame E q rec) # stream_frames E (q + 1) recs"

definition stream_wire :: "(32 word \<Rightarrow> bytes \<Rightarrow> bytes option) \<Rightarrow> 32 word \<Rightarrow> (byte \<times> bytes) list \<Rightarrow> bytes" where
  "stream_wire E q recs = concat (map snd (stream_frames E q recs))"

text \<open>The receiving side of a keyed stream. \<open>rx_ok\<close>: what stays fixed while application records
  come in (stream mode, started, inbound cipher set and paired with the encryption \<open>E\<close> of the
  sender, a callback that accepts). \<open>rx_at r f j\<close>: the reassembly buffer holds the first \<open>j\<close>
  bytes of the frame \<open>f\<close>, and from the second byte on the length field has been read and the
  buffer resized to the frame. \<open>rx_pos\<close>: the receiver is \<open>j\<close> bytes into the first frame of the
  records still to come. \<open>rx_step\<close>: what one call does at offset \<open>j'\<close> after it: still inside
  the frame, or the record delivered and the buffer reset.\<close>

definition rx_ok :: "env \<Rightarrow> (32 word \<Rightarrow> bytes \<Rightarrow> bytes option) \<Rightarrow> sptps \<Rightarrow> bool" where
  "rx_ok e E r =
     (\<not> datagram r \<and> state r \<noteq> SPTPS_ZERO \<and> instate r
      \<and> (\<forall>q pt. \<exists>ct. E q pt = Some ct \<and> length ct = length pt + 16
             \<and> cipher_decrypt e (cipher_suite r) (incipher r) q ct = Some pt)
      \<and> (\<forall>log t d. receive_record e log t d))"

definition rx_at :: "sptps \<Rightarrow> bytes \<Rightarrow> nat \<Rightarrow> bool" where
  "rx_at r f j =
     (buflen r = j \<and> take j (inbuf r) = take j f
      \<and> (if j < 2 then 2 \<le> length (inbuf r)
          else unat (reclen r) + 19 = length f \<and> length (inbuf r) = length f))"

definition rx_pos :: "(32 word \<Rightarrow> bytes \<Rightarrow> bytes option) \<Rightarrow> sptps \<Rightarrow> (byte \<times> bytes) list \<Rightarrow> nat \<Rightarrow> bool" where
  "rx_pos E r recs j =
     (case recs of
        [] \<Rightarrow> j = 0 \<and> buflen r = 0 \<and> 2 \<le> length (inbuf r)
      | rec # _ \<Rightarrow> j < length (stream_frame E (inseqno r) rec)
                  \<and> rx_at r (stream_frame E (inseqno r) rec) j)"

definition rx_step :: "sptps \<Rightarrow> sptps \<Rightarrow> bytes \<Rightarrow> nat \<Rightarrow> byte \<times> bytes \<Rightarrow> bool" where
  "rx_step r r' f j' rec =
     (if j' < length f
      then rx_at r' f j' \<and> inseqno r' = inseqno r \<and> delivered r' = delivered r
      else buflen r' = 0 \<and> 2 \<le> length (inbuf r') \<and> inseqno r' = inseqno r + 1
           \<and> delivered r' = delivered r @ [rec])"

text \<open>The initiator of the same exchange after its handshake, two application records, and the
  41 bytes of their frames cut into chunks of 1, 25 and 15 bytes: the second chunk holds the
  end of the first record and the beginning of the second.\<close>

definition keyed_sender :: sptps where
  "keyed_sender = run toy_env (responder_params\<lparr>p_initiator := True\<rparr>) handshake_calls"

definition round_trip_records :: "(byte \<times> bytes) list" where
  "round_trip_records = [(0, [104, 105]), (1, [33])]"

definition round_trip_chunks :: "bytes list" where
  "round_trip_chunks = [take 1 two_records, take 25 (drop 1 two_records), drop 26 two_records]"

section \<open>Properties\<close>

subsection \<open>Replay window: far-future packets\<close>

lemma unat_window_end:
  "unat (a :: 32 word) + 8 * unat (w :: 32 word) \<le> unat (q :: 32 word) \<Longrightarrow> unat (a + w * 8) = unat a + 8 * unat w"
proof -
  assume h: "unat a + 8 * unat w \<le> unat q"
  have "unat q < 2 ^ 32" using unsigned_less [of q] by simp
  with h have b: "unat a + 8 * unat w < 2 ^ 32" by linarith
  then have "unat w * 8 < 2 ^ 32" by linarith
  then have "unat (w * 8) = unat w * 8" by (simp add: unat_word_ariths)
  with b show ?thesis by (simp add: unat_word_ariths)
qed

lemma far_future_cond:
  assumes "unat (inseqno s) + 8 * unat (replaywin s) \<le> unat seqno"
  shows "inseqno s + replaywin s * 8 \<le> seqno"
  using assms unat_window_end [OF assms] by (simp add: word_le_nat_alt)

lemma far_future_neq:
  assumes "replaywin s \<noteq> 0" "unat (inseqno s) + 8 * unat (replaywin s) \<le> unat seqno"
  shows "seqno \<noteq> inseqno s" "inseqno s \<le> seqno"
proof -
  have "unat (replaywin s) \<noteq> 0" using assms(1) by (simp add: unat_eq_0)
  with assms(2) have "unat (inseqno s) < unat seqno" by linarith
  then show "seqno \<noteq> inseqno s" "inseqno s \<le> seqno" by (auto simp: word_le_nat_alt)
qed

lemma check_seqno_far_reject:
  assumes "replaywin s \<noteq> 0" "unat (inseqno s) + 8 * unat (replaywin s) \<le> unat seqno"
    "farfuture s < drop_bit 2 (replaywin s)"
  shows "sptps_check_seqno s seqno True = (Inl FarFuture, s\<lparr>farfuture := farfuture s + 1\<rparr>)"
  using assms far_future_cond [OF assms(2)] far_future_neq [OF assms(1,2)]
  by (simp add: sptps_check_seqno_def check_seqno_window_def)

lemma check_window_far_accept:
  assumes "replaywin s \<noteq> 0" "unat (inseqno s) + 8 * unat (replaywin s) \<le> unat seqno"
    "\<not> farfuture s < drop_bit 2 (replaywin s)" "length (late s) = unat (replaywin s)"
  shows "check_seqno_window s seqno True =
           (Inr (), s\<lparr>farfuture := farfuture s + 1, late := replicate (unat (replaywin s)) 255\<rparr>)"
  using assms far_future_cond [OF assms(2)]
  by (simp add: check_seqno_window_def)

lemma late_index_less: "w \<noteq> 0 \<Longrightarrow> late_index w q < unat w"
proof -
  assume "w \<noteq> 0"
  then have "0 < unat w" by (simp add: unat_gt_0)
  then show ?thesis by (simp add: late_index_def unat_mod_distrib)
qed

lemma byte_255_and: "(255 :: byte) AND x = x"
proof -
  have "(255 :: byte) = - 1" by simp
  then show ?thesis by (simp only: and.left_neutral)
qed

lemma check_seqno_far_accept:
  assumes "replaywin s \<noteq> 0" "unat (inseqno s) + 8 * unat (replaywin s) \<le> unat seqno"
    "\<not> farfuture s < drop_bit 2 (replaywin s)" "length (late s) = unat (replaywin s)"
  shows "sptps_check_seqno s seqno True =
           (Inr (), s\<lparr>farfuture := 0,
                      late := (replicate (unat (replaywin s)) 255)
                                [late_index (replaywin s) seqno := NOT (late_bitmask seqno)],
                      inseqno := seqno + 1,
                      received := (if seqno + 1 = 0 then 0 else received s + 1)\<rparr>)"
  using assms far_future_neq [OF assms(1,2)] late_index_less [OF assms(1), of seqno]
  by (simp add: sptps_check_seqno_def check_window_far_accept byte_255_and)


text \<open>C6: with the window enabled, a sequence number at or beyond \<open>inseqno + 8 * replaywin\<close>
  is rejected as \<open>FarFuture\<close> while \<open>farfuture < replaywin / 4\<close>, and the counter goes up by
  one; otherwise the far-future branch sets every byte of \<open>late\<close> to 0xFF and the packet is
  accepted: its own bit is cleared, \<open>farfuture\<close> returns to 0 and \<open>inseqno\<close> becomes
  \<open>seqno + 1\<close>. With \<open>replaywin = 16\<close> and \<open>inseqno = 0\<close>, sequence number 10000 is rejected
  four times and accepted the fifth time, leaving \<open>inseqno = 10001\<close>.\<close>

theorem far_future_flood:
  "(\<forall>s seqno.
      replaywin s \<noteq> 0 \<and> length (late s) = unat (replaywin s)
        \<and> unat (inseqno s) + 8 * unat (replaywin s) \<le> unat seqno \<longrightarrow>
      (if farfuture s < drop_bit 2 (replaywin s)
       then sptps_check_seqno s seqno True = (Inl FarFuture, s\<lparr>farfuture := farfuture s + 1\<rparr>)
       else check_seqno_window s seqno True =
              (Inr (), s\<lparr>farfuture := farfuture s + 1,
                         late := replicate (unat (replaywin s)) 255\<rparr>)
          \<and> sptps_check_seqno s seqno True =
              (Inr (), s\<lparr>farfuture := 0,
                         late := (replicate (unat (replaywin s)) 255)
                                   [late_index (replaywin s) seqno := NOT (late_bitmask seqno)],
                         inseqno := seqno + 1,
                         received := (if seqno + 1 = 0 then 0 else received s + 1)\<rparr>)))
   \<and> (\<forall>s. replaywin s = 16 \<and> length (late s) = 16 \<and> inseqno s = 0 \<and> farfuture s = 0 \<longrightarrow>
          fst (check_seqnos s [10000, 10000, 10000, 10000, 10000]) = [Inl FarFuture, Inl FarFuture, Inl FarFuture, Inl FarFuture, Inr ()]
        \<and> inseqno (snd (check_seqnos s [10000, 10000, 10000, 10000, 10000])) = 10001)"
proof (rule conjI; intro allI impI)
  fix s :: sptps and seqno :: "32 word"
  assume "replaywin s \<noteq> 0 \<and> length (late s) = unat (replaywin s)
        \<and> unat (inseqno s) + 8 * unat (replaywin s) \<le> unat seqno"
  then show "if farfuture s < drop_bit 2 (replaywin s)
       then sptps_check_seqno s seqno True = (Inl FarFuture, s\<lparr>farfuture := farfuture s + 1\<rparr>)
       else check_seqno_window s seqno True =
              (Inr (), s\<lparr>farfuture := farfuture s + 1,
                         late := replicate (unat (replaywin s)) 255\<rparr>)
          \<and> sptps_check_seqno s seqno True =
              (Inr (), s\<lparr>farfuture := 0,
                         late := (replicate (unat (replaywin s)) 255)
                                   [late_index (replaywin s) seqno := NOT (late_bitmask seqno)],
                         inseqno := seqno + 1,
                         received := (if seqno + 1 = 0 then 0 else received s + 1)\<rparr>)"
    by (simp add: check_seqno_far_reject check_window_far_accept check_seqno_far_accept)
next
  fix s :: sptps
  assume a: "replaywin s = 16 \<and> length (late s) = 16 \<and> inseqno s = 0 \<and> farfuture s = 0"
  have rej: "sptps_check_seqno (s\<lparr>farfuture := k\<rparr>) 10000 True = (Inl FarFuture, s\<lparr>farfuture := k + 1\<rparr>)"
    if "k < 4" for k
    using that a check_seqno_far_reject [of "s\<lparr>farfuture := k\<rparr>" 10000] by simp
  have acc: "inseqno (snd (sptps_check_seqno (s\<lparr>farfuture := 4\<rparr>) 10000 True)) = 10001
      \<and> fst (sptps_check_seqno (s\<lparr>farfuture := 4\<rparr>) 10000 True) = Inr ()"
    using a check_seqno_far_accept [of "s\<lparr>farfuture := 4\<rparr>" 10000] by simp
  have s0: "s = s\<lparr>farfuture := 0\<rparr>" using a by simp
  have "check_seqnos (s\<lparr>farfuture := 0\<rparr>) [10000, 10000, 10000, 10000, 10000] =
          ([Inl FarFuture, Inl FarFuture, Inl FarFuture, Inl FarFuture, fst (sptps_check_seqno (s\<lparr>farfuture := 4\<rparr>) 10000 True)],
           snd (sptps_check_seqno (s\<lparr>farfuture := 4\<rparr>) 10000 True))"
    using rej [of 0] rej [of 1] rej [of 2] rej [of 3]
    by (simp split: prod.splits)
  with acc s0
  show "fst (check_seqnos s [10000, 10000, 10000, 10000, 10000]) = [Inl FarFuture, Inl FarFuture, Inl FarFuture, Inl FarFuture, Inr ()]
        \<and> inseqno (snd (check_seqnos s [10000, 10000, 10000, 10000, 10000])) = 10001"
    by simp
qed

theorem far_future_flood_witness:
  "sptps_check_seqno keyed_datagram 10000 True = (Inl FarFuture, keyed_datagram\<lparr>farfuture := 1\<rparr>)
   \<and> fst (check_seqnos (keyed_datagram\<lparr>inseqno := 0\<rparr>) [10000, 10000, 10000, 10000, 10000])
       = [Inl FarFuture, Inl FarFuture, Inl FarFuture, Inl FarFuture, Inr ()]
   \<and> inseqno (snd (check_seqnos (keyed_datagram\<lparr>inseqno := 0\<rparr>) [10000, 10000, 10000, 10000, 10000])) = 10001"
proof -
  have "sptps_check_seqno keyed_datagram 10000 True = (Inl FarFuture, keyed_datagram\<lparr>farfuture := 1\<rparr>)"
    using far_future_flood [THEN conjunct1, rule_format, of keyed_datagram 10000]
    by (simp add: keyed_datagram_def sptps_zero_def)
  moreover have "fst (check_seqnos (keyed_datagram\<lparr>inseqno := 0\<rparr>) [10000, 10000, 10000, 10000, 10000])
       = [Inl FarFuture, Inl FarFuture, Inl FarFuture, Inl FarFuture, Inr ()]
   \<and> inseqno (snd (check_seqnos (keyed_datagram\<lparr>inseqno := 0\<rparr>) [10000, 10000, 10000, 10000, 10000])) = 10001"
    using far_future_flood [THEN conjunct2, rule_format, of "keyed_datagram\<lparr>inseqno := 0\<rparr>"]
    by (simp add: keyed_datagram_def sptps_zero_def)
  ultimately show ?thesis by simp
qed

subsection \<open>Datagram receive path\<close>

text \<open>C7: in datagram mode after inbound keying, a record whose AEAD decryption fails is
  rejected with \<open>DecryptFailed\<close> and the session is left exactly as it was (so \<open>inseqno\<close>,
  \<open>late\<close>, \<open>farfuture\<close> and \<open>received\<close> are unchanged): decryption comes before the replay
  check, which is the only step that updates the window.\<close>

theorem decrypt_failure_changes_nothing:
  assumes "datagram s" and "instate s" and "state s \<noteq> SPTPS_ZERO" and "21 \<le> length data"
    and "cipher_decrypt e (cipher_suite s) (incipher s) (rd32 data) (drop 4 data) = None"
  shows "sptps_receive_data e s data = (Inl DecryptFailed, s)"
  using assms by (simp add: sptps_receive_data_def sptps_receive_data_datagram_def)

theorem decrypt_failure_changes_nothing_witness:
  "fst (sptps_receive_data toy_env keyed_datagram genuine_packet) = Inr 23
   \<and> sptps_receive_data toy_env keyed_datagram tampered_packet = (Inl DecryptFailed, keyed_datagram)"
proof -
  have "sptps_receive_data toy_env keyed_datagram tampered_packet = (Inl DecryptFailed, keyed_datagram)"
    by (rule decrypt_failure_changes_nothing) code_simp+
  moreover have "fst (sptps_receive_data toy_env keyed_datagram genuine_packet) = Inr 23"
    by code_simp
  ultimately show ?thesis by simp
qed

text \<open>C10: in datagram mode before inbound keying, a packet is accepted only if its
  little-endian sequence number equals \<open>inseqno\<close> and its type byte is 128; any other sequence
  number is rejected with the session unchanged, and any other type is rejected (after
  \<open>inseqno\<close> has been advanced).\<close>

theorem datagram_handshake_strict:
  assumes "datagram s" and "\<not> instate s" and "state s \<noteq> SPTPS_ZERO"
  shows "(\<forall>n s'. sptps_receive_data e s data = (Inr n, s') \<longrightarrow>
            5 \<le> length data \<and> rd32 data = inseqno s \<and> data ! 4 = SPTPS_HANDSHAKE)
       \<and> (5 \<le> length data \<and> rd32 data \<noteq> inseqno s \<longrightarrow>
            sptps_receive_data e s data = (Inl BadSeqno, s))
       \<and> (5 \<le> length data \<and> rd32 data = inseqno s \<and> data ! 4 \<noteq> SPTPS_HANDSHAKE \<longrightarrow>
            sptps_receive_data e s data = (Inl InvalidRecordType, s\<lparr>inseqno := inseqno s + 1\<rparr>))
       \<and> (length data < 5 \<longrightarrow> sptps_receive_data e s data = (Inl ShortPacket, s))"
  using assms
  by (auto simp: sptps_receive_data_def sptps_receive_data_datagram_def Let_def
           split: if_splits prod.splits sum.splits)

theorem datagram_handshake_strict_witness:
  "sptps_receive_data toy_env unkeyed_datagram (le32 1 @ [128]) = (Inl BadSeqno, unkeyed_datagram)
   \<and> sptps_receive_data toy_env unkeyed_datagram (le32 0 @ [5, 1])
       = (Inl InvalidRecordType, unkeyed_datagram\<lparr>inseqno := 1\<rparr>)"
proof -
  have a: "datagram unkeyed_datagram" "\<not> instate unkeyed_datagram" "state unkeyed_datagram \<noteq> SPTPS_ZERO"
    "inseqno unkeyed_datagram = 0"
    by (simp_all add: unkeyed_datagram_def sptps_zero_def)
  have r: "rd32 (le32 1 @ [128]) = 1" "rd32 (le32 0 @ [5, 1]) = 0"
    by (simp_all add: rd32_def le32_def)
  show ?thesis
    using datagram_handshake_strict [OF a(1,2,3), of toy_env "le32 1 @ [128]"]
      datagram_handshake_strict [OF a(1,2,3), of toy_env "le32 0 @ [5, 1]"] a(4) r
    by (simp add: le32_def SPTPS_HANDSHAKE_def)
qed

subsection \<open>The send path leaves the rest of the session alone\<close>

lemma send_record_priv_datagram_frame:
  "mask_out (snd (send_record_priv_datagram e s t d n)) = mask_out s"
  by (simp add: send_record_priv_datagram_def call_send_data_def mask_out_def Let_def
      split: option.splits)

lemma send_record_priv_frame: "mask_out (snd (send_record_priv e s t d n)) = mask_out s"
  by (simp add: send_record_priv_def send_record_priv_datagram_frame call_send_data_def Let_def
      split: option.splits)
     (simp add: mask_out_def)

lemma send_sig_frame: "mask_out (snd (send_sig e s)) = mask_out s"
  by (simp add: send_sig_def send_record_priv_frame Let_def split: option.splits)

lemma send_ack_frame: "mask_out (snd (send_ack e s)) = mask_out s"
  by (simp add: send_ack_def send_record_priv_frame)

lemma mask_out_fields:
  assumes "mask_out s' = mask_out s"
  shows "cipher_suite s' = cipher_suite s" "key s' = key s" "state s' = state s"
    "ecdh s' = ecdh s" "mykex s' = mykex s" "hiskex s' = hiskex s" "instate s' = instate s"
    "outstate s' = outstate s" "initiator s' = initiator s" "delivered s' = delivered s"
    "inbuf s' = inbuf s" "buflen s' = buflen s" "reclen s' = reclen s" "inseqno s' = inseqno s"
    "incipher s' = incipher s" "outcipher s' = outcipher s" "datagram s' = datagram s"
    "label s' = label s" "rng s' = rng s" "late s' = late s" "replaywin s' = replaywin s"
    "farfuture s' = farfuture s" "received s' = received s"
  using arg_cong [OF assms, of cipher_suite] arg_cong [OF assms, of key]
    arg_cong [OF assms, of state] arg_cong [OF assms, of ecdh] arg_cong [OF assms, of mykex]
    arg_cong [OF assms, of hiskex] arg_cong [OF assms, of instate]
    arg_cong [OF assms, of outstate] arg_cong [OF assms, of initiator]
    arg_cong [OF assms, of delivered] arg_cong [OF assms, of inbuf]
    arg_cong [OF assms, of buflen] arg_cong [OF assms, of reclen]
    arg_cong [OF assms, of inseqno] arg_cong [OF assms, of incipher]
    arg_cong [OF assms, of outcipher] arg_cong [OF assms, of datagram]
    arg_cong [OF assms, of label] arg_cong [OF assms, of rng] arg_cong [OF assms, of late]
    arg_cong [OF assms, of replaywin] arg_cong [OF assms, of farfuture]
    arg_cong [OF assms, of received]
  by (simp_all add: mask_out_def)

subsection \<open>Suite negotiation\<close>

lemma receive_kex_suite:
  assumes "unat len = 4 + 32 + ECDH_SIZE e" and "data ! 0 = SPTPS_VERSION"
    and "rd16 (drop 2 data) AND cipher_suites s \<noteq> 0"
    and "select_cipher_suite (rd16 (drop 2 data) AND cipher_suites s)
           (preferred_suite s) (data ! 1 AND 0xf) = Some c"
  shows "cipher_suite (snd (receive_kex e s data len)) = c"
  using assms
  by (simp add: receive_kex_def Let_def mask_out_fields(1) [OF send_sig_frame])

lemma suite_in_mask_bit: "suite_in_mask msk p = bit msk (unat p)"
proof -
  have "((ucast msk :: 32 word) AND 2 ^ unat p = 0) = (\<not> bit (ucast msk :: 32 word) (unat p))"
    by (rule and_exp_eq_0_iff_not_bit)
  moreover have "bit (ucast msk :: 32 word) (unat p) = bit msk (unat p)"
    by (auto simp: bit_ucast_iff dest: bit_imp_le_length)
  ultimately show ?thesis
    by (simp add: suite_in_mask_def push_bit_of_1)
qed

lemma lowest_suite_at:
  "bit msk n \<Longrightarrow> (\<forall>j<n. \<not> bit msk j) \<Longrightarrow> lowest_suite sel msk = Some (sel + of_nat n)"
proof (induction n arbitrary: sel msk)
  case 0
  then have "msk AND 1 \<noteq> 0"
    by (simp add: and_one_eq bit_0 odd_iff_mod_2_eq_one)
  then show ?case
    by (subst lowest_suite.simps) simp
next
  case (Suc n)
  from Suc.prems(2) have "\<not> bit msk 0" by blast
  then have z: "msk AND 1 = 0"
    by (simp add: and_one_eq bit_0 even_iff_mod_2_eq_zero)
  have "bit (drop_bit 1 msk) n"
    using Suc.prems(1) by (simp add: bit_drop_bit_eq)
  moreover have "\<forall>j<n. \<not> bit (drop_bit 1 msk) j"
    using Suc.prems(2) by (simp add: bit_drop_bit_eq)
  ultimately have "lowest_suite (sel + 1) (drop_bit 1 msk) = Some (sel + 1 + of_nat n)"
    by (rule Suc.IH)
  with z show ?case
    by (subst lowest_suite.simps) (simp add: add.assoc add.commute)
qed

lemma lowest_suite_returns:
  assumes "msk \<noteq> 0"
  shows "\<exists>c. lowest_suite 0 msk = Some c \<and> bit msk (unat c) \<and> (\<forall>j < unat c. \<not> bit msk j)"
proof -
  from assms obtain m where "bit msk m"
    by (auto simp: bit_eq_iff)
  define n where "n = (LEAST k. bit msk k)"
  have b: "bit msk n" unfolding n_def using \<open>bit msk m\<close> by (rule LeastI)
  have l: "\<forall>j<n. \<not> bit msk j" unfolding n_def using not_less_Least by blast
  from b have "n < 16" using bit_imp_le_length [of msk n] by simp
  then have u: "unat (of_nat n :: byte) = n"
    by (simp add: unat_of_nat)
  have "lowest_suite 0 msk = Some (of_nat n)"
    using lowest_suite_at [OF b l, of 0] by simp
  with b l u show ?thesis by simp
qed

lemma select_cipher_suite_choice:
  assumes nz: "msk \<noteq> 0" and "unat p1 < 32" and "unat p2 < 16"
  shows "\<exists>c. select_cipher_suite msk p1 p2 = Some c \<and> bit msk (unat c)
       \<and> (if bit msk (unat p1)
           then if bit msk (unat p2) then c = min p1 p2 else c = p1
           else if bit msk (unat p2) then c = p2 else \<forall>j < unat c. \<not> bit msk j)"
proof -
  have p2: "p2 \<noteq> 255" "p2 < 255" using assms(3) by (auto simp: word_less_nat_alt)
  have p1: "p1 \<noteq> 255" using assms(2) by auto
  obtain l where l: "lowest_suite 0 msk = Some l" "bit msk (unat l)" "\<forall>j < unat l. \<not> bit msk j"
    using lowest_suite_returns [OF nz] by blast
  show ?thesis
    using l p1 p2
    by (auto simp: select_cipher_suite_def suite_in_mask_bit Let_def min_def)
qed

text \<open>C4, as claimed, fails: with both suites 0 and 1 in the intersection, local preference 1
  and peer preference 0, \<^verbatim>\<open>select_cipher_suite\<close> returns 0, not the local preference.\<close>

theorem suite_negotiation_counterexample:
  "suite_in_mask 3 1 \<and> select_cipher_suite 3 1 0 = Some 0"
  by code_simp

text \<open>C4, amended: \<^verbatim>\<open>receive_kex\<close> intersects the peer's mask with the local one and fails with
  \<open>NoCommonSuite\<close> when the intersection is empty. Otherwise the negotiated suite is in the
  intersection, and it is the lower-numbered of the two preferences (local, and the peer's low
  four bits) when both are in the intersection, the one that is when only one is, and the
  lowest-numbered suite of the intersection when neither is.\<close>

theorem suite_negotiation:
  assumes "unat len = 4 + 32 + ECDH_SIZE e" and "data ! 0 = SPTPS_VERSION"
    and "unat (preferred_suite s) < 32"
  shows "(rd16 (drop 2 data) AND cipher_suites s = 0 \<longrightarrow>
            receive_kex e s data len = (Inl NoCommonSuite, s))
       \<and> (rd16 (drop 2 data) AND cipher_suites s \<noteq> 0 \<longrightarrow>
            (\<exists>c. select_cipher_suite (rd16 (drop 2 data) AND cipher_suites s)
                    (preferred_suite s) (data ! 1 AND 0xf) = Some c
               \<and> cipher_suite (snd (receive_kex e s data len)) = c
               \<and> bit (rd16 (drop 2 data) AND cipher_suites s) (unat c)
               \<and> (if bit (rd16 (drop 2 data) AND cipher_suites s) (unat (preferred_suite s))
                   then if bit (rd16 (drop 2 data) AND cipher_suites s) (unat (data ! 1 AND 0xf))
                        then c = min (preferred_suite s) (data ! 1 AND 0xf)
                        else c = preferred_suite s
                   else if bit (rd16 (drop 2 data) AND cipher_suites s) (unat (data ! 1 AND 0xf))
                        then c = data ! 1 AND 0xf
                        else \<forall>j < unat c. \<not> bit (rd16 (drop 2 data) AND cipher_suites s) j)))"
proof (rule conjI; rule impI)
  assume "rd16 (drop 2 data) AND cipher_suites s = 0"
  with assms show "receive_kex e s data len = (Inl NoCommonSuite, s)"
    by (simp add: receive_kex_def)
next
  assume nz: "rd16 (drop 2 data) AND cipher_suites s \<noteq> 0"
  have "data ! 1 AND 0xf \<le> 0xf" by (rule word_and_le1)
  then have p2: "unat (data ! 1 AND 0xf) < 16" by (simp add: word_le_nat_alt)
  obtain c where c: "select_cipher_suite (rd16 (drop 2 data) AND cipher_suites s)
                    (preferred_suite s) (data ! 1 AND 0xf) = Some c"
     "bit (rd16 (drop 2 data) AND cipher_suites s) (unat c)"
     "if bit (rd16 (drop 2 data) AND cipher_suites s) (unat (preferred_suite s))
                   then if bit (rd16 (drop 2 data) AND cipher_suites s) (unat (data ! 1 AND 0xf))
                        then c = min (preferred_suite s) (data ! 1 AND 0xf)
                        else c = preferred_suite s
                   else if bit (rd16 (drop 2 data) AND cipher_suites s) (unat (data ! 1 AND 0xf))
                        then c = data ! 1 AND 0xf
                        else \<forall>j < unat c. \<not> bit (rd16 (drop 2 data) AND cipher_suites s) j"
    using select_cipher_suite_choice [OF nz assms(3) p2] by blast
  moreover have "cipher_suite (snd (receive_kex e s data len)) = c"
    using assms(1,2) nz c(1) by (rule receive_kex_suite)
  ultimately
  show "\<exists>c. select_cipher_suite (rd16 (drop 2 data) AND cipher_suites s)
                    (preferred_suite s) (data ! 1 AND 0xf) = Some c
               \<and> cipher_suite (snd (receive_kex e s data len)) = c
               \<and> bit (rd16 (drop 2 data) AND cipher_suites s) (unat c)
               \<and> (if bit (rd16 (drop 2 data) AND cipher_suites s) (unat (preferred_suite s))
                   then if bit (rd16 (drop 2 data) AND cipher_suites s) (unat (data ! 1 AND 0xf))
                        then c = min (preferred_suite s) (data ! 1 AND 0xf)
                        else c = preferred_suite s
                   else if bit (rd16 (drop 2 data) AND cipher_suites s) (unat (data ! 1 AND 0xf))
                        then c = data ! 1 AND 0xf
                        else \<forall>j < unat c. \<not> bit (rd16 (drop 2 data) AND cipher_suites s) j)"
    by blast
qed

theorem suite_negotiation_witness:
  "cipher_suite (snd (receive_kex toy_env responder_start peer_kex 68)) = 0
   \<and> receive_kex toy_env (responder_start\<lparr>cipher_suites := 2\<rparr>) ([0, 0, 1, 0] @ drop 4 peer_kex) 68
       = (Inl NoCommonSuite, responder_start\<lparr>cipher_suites := 2\<rparr>)"
proof -
  have a: "unat (68 :: 16 word) = 4 + 32 + ECDH_SIZE toy_env" "peer_kex ! 0 = SPTPS_VERSION"
    "unat (preferred_suite responder_start) < 32"
    "([0, 0, 1, 0] @ drop 4 peer_kex) ! 0 = SPTPS_VERSION"
    "unat (preferred_suite (responder_start\<lparr>cipher_suites := 2\<rparr>)) < 32"
    by code_simp+
  have b: "rd16 (drop 2 peer_kex) AND cipher_suites responder_start = 3"
    "preferred_suite responder_start = 1" "peer_kex ! 1 AND 0xf = 0"
    "rd16 (drop 2 ([0, 0, 1, 0] @ drop 4 peer_kex)) AND cipher_suites (responder_start\<lparr>cipher_suites := 2\<rparr>) = 0"
    by code_simp+
  show ?thesis
    using suite_negotiation [OF a(1,2,3)] suite_negotiation [OF a(1,4,5)] b
    by (auto simp: bit_numeral_Bit1_0 min_def split: if_splits)
qed

subsection \<open>Key derivation\<close>





text \<open>C2 does not hold of the code: \<^verbatim>\<open>generate_key_material\<close> copies 32 bytes from offset 1 of
  each KEX frame, not the nonce field at offset 4. For the responder that has received the
  peer's KEX, with a PRF that returns its seed, the derived key differs from the specified one:
  its seed holds the preferred-suite byte, the suites mask and the first 29 bytes of each
  nonce.\<close>

theorem key_material_nonce_offset:
  "fst (generate_key_material toy_env awaiting_sig [5, 6]) = Inr ()
   \<and> key (snd (generate_key_material toy_env awaiting_sig [5, 6]))
       \<noteq> spec_key_material toy_env awaiting_sig [5, 6]
   \<and> key (snd (generate_key_material toy_env awaiting_sig [5, 6]))
       = Some (fix_len 128 (map of_char ''key expansion''
           @ ([0, 3, 0] @ replicate 29 187) @ ([1, 3, 0] @ replicate 29 170)
           @ [116, 101, 115, 116] @ [5, 6]))
   \<and> spec_key_material toy_env awaiting_sig [5, 6]
       = Some (fix_len 128 (map of_char ''key expansion''
           @ replicate 32 187 @ replicate 32 170 @ [116, 101, 115, 116] @ [5, 6]))"
  by code_simp

subsection \<open>The key buffer during the handshake\<close>

lemma hs_same_inv: "hs_same s s' \<Longrightarrow> hs_inv s \<Longrightarrow> hs_inv s'"
  by (simp add: hs_same_def hs_inv_def)

lemma mask_out_hs_same: "mask_out s' = mask_out s \<Longrightarrow> hs_same s s'"
  unfolding hs_same_def by (intro conjI mask_out_fields)

lemma send_record_priv_hs: "send_record_priv e s t d n = (r, s') \<Longrightarrow> hs_same s s'"
  using send_record_priv_frame [of e s t d n] by (intro mask_out_hs_same) simp

lemma send_sig_hs: "send_sig e s = (r, s') \<Longrightarrow> hs_same s s'"
  using send_sig_frame [of e s] by (intro mask_out_hs_same) simp

lemma send_ack_hs: "send_ack e s = (r, s') \<Longrightarrow> hs_same s s'"
  using send_ack_frame [of e s] by (intro mask_out_hs_same) simp

lemma send_kex_hs:
  "send_kex e s = (r, s') \<Longrightarrow> state s' = state s \<and> key s' = key s"
  by (auto simp: send_kex_def Let_def hs_same_def
      split: if_splits option.splits prod.splits dest!: send_record_priv_hs)

lemma receive_kex_hs: "receive_kex e s d n = (r, s') \<Longrightarrow> hs_same s s'"
  by (auto simp: receive_kex_def Let_def hs_same_def
      split: if_splits option.splits dest!: send_sig_hs)

lemma generate_key_material_hs:
  "generate_key_material e s sh = (r, s') \<Longrightarrow> state s' = state s \<and> ecdh s' = ecdh s"
  by (auto simp: generate_key_material_def Let_def split: option.splits)

lemma receive_sig_unfold:
  "receive_sig e s data len =
     (if unat len \<noteq> ecdsa_size e (hiskey s) then (Inl BadLength, s)
      else case (mykex s, hiskex s) of
        (Some mk, Some hk) \<Rightarrow>
          if \<not> ecdsa_verify e (hiskey s)
                 ([if \<not> initiator s then 1 else 0] @ fix_len (4 + 32 + ECDH_SIZE e) hk
                    @ fix_len (4 + 32 + ECDH_SIZE e) mk @ label s)
                 (take (ecdsa_size e (hiskey s)) data)
          then (Inl BadSignature, s)
          else (case ecdh s of
                  None \<Rightarrow> (Inl NullPointer, s)
                | Some priv \<Rightarrow>
                   (case ecdh_compute_shared e priv (take (ECDH_SIZE e) (drop (4 + 32) hk)) of
                      None \<Rightarrow> (Inl ECDHFailed, s)
                    | Some sh \<Rightarrow>
                        receive_sig_keys e (s\<lparr>ecdh := None\<rparr>) (fix_len (ECDH_SHARED_SIZE e) sh)))
      | _ \<Rightarrow> (Inl NullPointer, s))"
  by (simp add: receive_sig_def receive_sig_keys_def Let_def split: option.splits)

lemma receive_sig_keys_hs:
  assumes "receive_sig_keys e s1 sh = (r, s')"
  shows "state s' = state s1 \<and> ecdh s' = ecdh s1"
proof -
  obtain rg s2 where g: "generate_key_material e s1 sh = (rg, s2)"
    by (cases "generate_key_material e s1 sh")
  note h2 = generate_key_material_hs [OF g]
  show ?thesis
  proof (cases rg)
    case (Inl x)
    with g assms h2 show ?thesis by (simp add: receive_sig_keys_def)
  next
    case rg: (Inr u)
    obtain r3 s3 where a: "(if \<not> initiator s2 then send_sig e s2 else (Inr (), s2)) = (r3, s3)"
      by (cases "if \<not> initiator s2 then send_sig e s2 else (Inr (), s2)")
    then have h3: "hs_same s2 s3"
      by (auto simp: hs_same_def split: if_splits dest!: send_sig_hs)
    show ?thesis
    proof (cases r3)
      case (Inl x)
      with g rg a assms h2 h3 show ?thesis by (simp add: receive_sig_keys_def hs_same_def)
    next
      case r3: (Inr u3)
      obtain r5 s5 where b: "(if outstate (s3\<lparr>mykex := None, hiskex := None\<rparr>)
                              then send_ack e (s3\<lparr>mykex := None, hiskex := None\<rparr>)
                              else (Inr (), s3\<lparr>mykex := None, hiskex := None\<rparr>)) = (r5, s5)"
        by (cases "if outstate (s3\<lparr>mykex := None, hiskex := None\<rparr>)
                   then send_ack e (s3\<lparr>mykex := None, hiskex := None\<rparr>)
                   else (Inr (), s3\<lparr>mykex := None, hiskex := None\<rparr>)")
      then have h5: "hs_same (s3\<lparr>mykex := None, hiskex := None\<rparr>) s5"
        by (auto simp: hs_same_def split: if_splits dest!: send_ack_hs)
      from assms g rg a r3 b
      have "(case r5 of Inl x \<Rightarrow> (Inl x, s5)
             | Inr _ \<Rightarrow> (case cipher_init e (cipher_suite s5) (key s5) (\<not> initiator s5) of
                       None \<Rightarrow> (Inl CipherInitFailed,
                                                      s5\<lparr>outcipher := cipher_init_failed e
                                                         (cipher_suite s5) (outcipher s5)\<rparr>)
                     | Some ctx \<Rightarrow> (Inr (), s5\<lparr>outcipher := Some ctx\<rparr>))) = (r, s')"
        by (simp add: receive_sig_keys_def Let_def)
      then have "state s' = state s5 \<and> ecdh s' = ecdh s5"
        by (auto split: sum.splits option.splits)
      with h2 h3 h5 show ?thesis by (simp add: hs_same_def)
    qed
  qed
qed

lemma receive_sig_hs:
  assumes "receive_sig e s d n = (r, s')"
  shows "state s' = state s \<and> (ecdh s' = None \<or> (key s' = key s \<and> ecdh s' = ecdh s))"
proof (cases "s' = s")
  case True
  then show ?thesis by simp
next
  case False
  with assms obtain sh where "receive_sig_keys e (s\<lparr>ecdh := None\<rparr>) sh = (r, s')"
    by (auto simp: receive_sig_unfold split: if_splits option.splits)
  from receive_sig_keys_hs [OF this] show ?thesis by simp
qed

lemma receive_ack_hs:
  "receive_ack e s d n = (r, s') \<Longrightarrow>
     state s' = state s \<and> ecdh s' = ecdh s \<and> (case r of Inl _ \<Rightarrow> key s' = key s | Inr _ \<Rightarrow> key s' = None)"
  by (auto simp: receive_ack_def split: if_splits option.splits)

lemma call_receive_record_hs: "hs_same s (snd (call_receive_record e s t d))"
  by (simp add: call_receive_record_def hs_same_def)

lemma receive_handshake_kex_inv:
  "key s = None \<Longrightarrow> hs_inv (snd (receive_handshake_kex e s d n))"
  by (auto simp: receive_handshake_kex_def hs_inv_def hs_same_def
      split: prod.splits sum.splits dest!: receive_kex_hs)

lemma receive_handshake_inv:
  assumes "hs_inv s"
  shows "hs_inv (snd (receive_handshake e s d n))"
proof (cases "state s")
  case SPTPS_ZERO
  with assms show ?thesis by (simp add: receive_handshake_def)
next
  case SPTPS_KEX
  with assms have "key s = None" by (simp add: hs_inv_def)
  with SPTPS_KEX show ?thesis
    by (simp add: receive_handshake_def receive_handshake_kex_inv)
next
  case SPTPS_SECONDARY_KEX
  with assms have k: "key s = None" by (simp add: hs_inv_def)
  obtain r s1 where s1: "send_kex e s = (r, s1)" by (cases "send_kex e s")
  from send_kex_hs [OF s1] k have k1: "key s1 = None" by simp
  show ?thesis
  proof (cases r)
    case (Inl x)
    with s1 SPTPS_SECONDARY_KEX k1 show ?thesis
      by (simp add: receive_handshake_def hs_inv_def)
  next
    case (Inr u)
    with s1 SPTPS_SECONDARY_KEX k1 show ?thesis
      by (simp add: receive_handshake_def receive_handshake_kex_inv)
  qed
next
  case SPTPS_SIG
  obtain r s1 where s1: "receive_sig e s d n = (r, s1)" by (cases "receive_sig e s d n")
  from receive_sig_hs [OF s1] SPTPS_SIG assms
  have i1: "state s1 = SPTPS_SIG" "hs_inv s1"
    by (auto simp: hs_inv_def)
  show ?thesis
  proof (cases r)
    case (Inl x)
    with s1 SPTPS_SIG i1 show ?thesis by (simp add: receive_handshake_def)
  next
    case (Inr u)
    show ?thesis
    proof (cases "outstate s1")
      case True
      with Inr s1 SPTPS_SIG show ?thesis by (simp add: receive_handshake_def hs_inv_def)
    next
      case False
      obtain r2 s2 where s2: "receive_ack e (s1\<lparr>outstate := True\<rparr>) [] 0 = (r2, s2)"
        by (cases "receive_ack e (s1\<lparr>outstate := True\<rparr>) [] 0")
      from receive_ack_hs [OF s2] i1 have "hs_inv s2" "case r2 of Inl _ \<Rightarrow> True | Inr _ \<Rightarrow> key s2 = None"
        by (auto simp: hs_inv_def split: sum.splits)
      with False Inr s1 s2 SPTPS_SIG show ?thesis
        by (auto simp: receive_handshake_def hs_inv_def call_receive_record_def split: sum.splits)
    qed
  qed
next
  case SPTPS_ACK
  obtain r s1 where s1: "receive_ack e s d n = (r, s1)" by (cases "receive_ack e s d n")
  from receive_ack_hs [OF s1] SPTPS_ACK
  have "state s1 = SPTPS_ACK" "case r of Inl _ \<Rightarrow> True | Inr _ \<Rightarrow> key s1 = None"
    by (auto split: sum.splits)
  with s1 SPTPS_ACK show ?thesis
    by (auto simp: receive_handshake_def hs_inv_def call_receive_record_def split: sum.splits)
qed

lemma hs_inv_update:
  "hs_inv (s\<lparr>inbuf := a\<rparr>) = hs_inv s" "hs_inv (s\<lparr>buflen := b\<rparr>) = hs_inv s"
  "hs_inv (s\<lparr>reclen := c\<rparr>) = hs_inv s" "hs_inv (s\<lparr>inseqno := d\<rparr>) = hs_inv s"
  "hs_inv (s\<lparr>delivered := f\<rparr>) = hs_inv s"
  by (simp_all add: hs_inv_def)

lemma dispatch_record_inv: "hs_inv s \<Longrightarrow> hs_inv (snd (dispatch_record e s t d n))"
  by (simp add: dispatch_record_def receive_handshake_inv call_receive_record_def hs_inv_update)

lemma check_seqno_window_hs: "hs_same s (snd (check_seqno_window s q u))"
  by (simp add: check_seqno_window_def hs_same_def Let_def)

lemma sptps_check_seqno_hs: "hs_same s (snd (sptps_check_seqno s q u))"
proof -
  obtain r s1 where w: "check_seqno_window s q u = (r, s1)" by (cases "check_seqno_window s q u")
  with check_seqno_window_hs [of s q u] have "hs_same s s1" by simp
  with w show ?thesis
    by (auto simp: sptps_check_seqno_def hs_same_def Let_def split: sum.splits)
qed

lemma sptps_receive_data_datagram_inv:
  "hs_inv s \<Longrightarrow> hs_inv (snd (sptps_receive_data_datagram e s d))"
proof -
  assume i: "hs_inv s"
  have c: "hs_inv (snd (sptps_check_seqno s q True))" for q
    using sptps_check_seqno_hs [of s q True] i by (rule hs_same_inv)
  show ?thesis
    using i c [of "rd32 d"]
    by (auto simp: sptps_receive_data_datagram_def Let_def receive_handshake_inv hs_inv_update
          dispatch_record_inv
        split: option.splits prod.splits sum.splits)
qed

lemma hs_inv_finish:
  "hs_inv (snd r) \<Longrightarrow>
   hs_inv (snd (case r of (Inl x, s5) \<Rightarrow> (Inl x, s5)
                | (Inr _, s5) \<Rightarrow> (Inr (n :: nat), s5\<lparr>buflen := 0\<rparr>)))"
  by (auto simp: hs_inv_update split: prod.splits sum.splits)

lemma process_record_inv: "hs_inv s \<Longrightarrow> hs_inv (snd (process_record e s k))"
  by (auto simp: process_record_def Let_def hs_inv_update
      split: option.splits intro!: hs_inv_finish dispatch_record_inv)

lemma receive_data_record_inv:
  "hs_inv s \<Longrightarrow> hs_inv (snd (receive_data_record e s d k))"
  by (simp add: receive_data_record_def Let_def hs_inv_update process_record_inv)

lemma sptps_receive_data_inv:
  "hs_inv s \<Longrightarrow> hs_inv (snd (sptps_receive_data e s d))"
proof -
  assume i: "hs_inv s"
  have dg: "hs_inv (snd (case sptps_receive_data_datagram e s d of
              (Inl x, s1) \<Rightarrow> (Inl x, s1) | (Inr _, s1) \<Rightarrow> (Inr (length d), s1)))"
    using sptps_receive_data_datagram_inv [OF i, of e d]
    by (auto split: prod.splits sum.splits)
  show ?thesis
    using i dg
    by (auto simp: sptps_receive_data_def Let_def hs_inv_update
        intro!: receive_data_record_inv)
qed

lemma exec_inv: "hs_inv s \<Longrightarrow> hs_inv (exec e s c)"
proof (cases c)
  case (SendRecord t d n)
  assume i: "hs_inv s"
  obtain r s' where a: "send_record_priv e s t d n = (r, s')"
    by (cases "send_record_priv e s t d n")
  from send_record_priv_hs [OF a] i have "hs_inv s'" by (rule hs_same_inv)
  with a i SendRecord show ?thesis by (simp add: sptps_send_record_def)
next
  case (ReceiveData d)
  assume "hs_inv s"
  with ReceiveData show ?thesis by (simp add: sptps_receive_data_inv)
next
  case (VerifyDatagram d)
  assume i: "hs_inv s"
  have "hs_inv (snd (sptps_check_seqno s (rd32 d) False))"
    using sptps_check_seqno_hs i by (rule hs_same_inv)
  with i VerifyDatagram show ?thesis
    by (auto simp: sptps_verify_datagram_def Let_def split: prod.splits sum.splits option.splits)
next
  case ForceKex
  assume i: "hs_inv s"
  show ?thesis
  proof (cases "\<not> outstate s \<or> state s \<noteq> SPTPS_SECONDARY_KEX")
    case True
    with i ForceKex show ?thesis by (simp add: sptps_force_kex_def)
  next
    case False
    with i have k: "key s = None" by (simp add: hs_inv_def)
    obtain r s' where a: "send_kex e (s\<lparr>state := SPTPS_KEX\<rparr>) = (r, s')"
      by (cases "send_kex e (s\<lparr>state := SPTPS_KEX\<rparr>)")
    from send_kex_hs [OF a] k have "key s' = None" by simp
    with a False ForceKex show ?thesis by (simp add: sptps_force_kex_def hs_inv_def)
  qed
next
  case Stop
  then show ?thesis by (simp add: sptps_stop_def sptps_zero_def hs_inv_def)
qed

lemma sptps_start_inv: "hs_inv (snd (sptps_start e p))"
proof -
  obtain r s' where a: "sptps_start e p = (r, s')" by (cases "sptps_start e p")
  then obtain s0 where "send_kex e s0 = (r, s')" "key s0 = None"
    by (auto simp: sptps_start_def Let_def sptps_zero_def split: if_splits)
  from send_kex_hs [OF this(1)] this(2) a show ?thesis by (simp add: hs_inv_def)
qed

lemma foldl_exec_inv: "hs_inv s \<Longrightarrow> hs_inv (foldl (exec e) s cs)"
  by (induction cs arbitrary: s) (simp_all add: exec_inv)

lemma run_inv: "hs_inv (run e p cs)"
  unfolding run_def by (rule foldl_exec_inv) (rule sptps_start_inv)


lemma keyed_stream_view:
  "handshake_view keyed_stream = (SPTPS_SECONDARY_KEX, True, True, True, True)"
  by code_simp

lemma rekey_pending_view:
  "handshake_view rekey_pending = (SPTPS_ACK, True, True, False, True)"
  by code_simp

text \<open>C8, as claimed, fails: after the SIG record of a rekey the responder is in state ACK with
  \<open>instate\<close> and \<open>outstate\<close> both true and the new key still in \<open>key\<close>, where it stays until the
  peer's ACK arrives.\<close>

theorem key_released_counterexample:
  "instate rekey_pending \<and> outstate rekey_pending \<and> key rekey_pending \<noteq> None"
  using rekey_pending_view by (simp add: handshake_view_def)

text \<open>C8, amended: in every state a session reaches from \<^verbatim>\<open>sptps_start\<close> by any calls, with
  \<open>instate\<close> and \<open>outstate\<close> both true, \<open>key\<close> is NULL unless the state is ACK (a rekey's key
  awaits the peer's ACK) or the state is SIG with no ECDH key left (\<^verbatim>\<open>receive_sig\<close> failed
  after deriving the key).\<close>

theorem key_released_when_keyed:
  assumes "s = run e params calls" and "instate s" and "outstate s"
    and "state s \<noteq> SPTPS_ACK" and "\<not> (state s = SPTPS_SIG \<and> ecdh s = None)"
  shows "key s = None"
  using run_inv [of e params calls] assms by (auto simp: hs_inv_def)

theorem key_released_when_keyed_witness:
  "instate keyed_stream \<and> outstate keyed_stream \<and> state keyed_stream = SPTPS_SECONDARY_KEX
   \<and> key keyed_stream = None"
proof -
  have v: "instate keyed_stream" "outstate keyed_stream" "state keyed_stream = SPTPS_SECONDARY_KEX"
    using keyed_stream_view by (simp_all add: handshake_view_def)
  have "key keyed_stream = None"
    using keyed_stream_def v(1,2) by (rule key_released_when_keyed) (simp_all add: v(3))
  with v show ?thesis by simp
qed

subsection \<open>Replay window: replayed sequence numbers\<close>

lemma late_index_nat: "late_index w q = unat q div 8 mod unat w"
  by ((simp add: late_index_def unat_mod_distrib unat_div_distrib))

lemma late_bitmask_nat: "late_bitmask q = 2 ^ (unat q mod 8)"
  by ((simp add: late_bitmask_def unat_mod_distrib push_bit_of_1))

lemma late_test: "(lt ! late_index w q AND late_bitmask q = 0) = (\<not> lbit lt (unat w) (unat q))"
  by ((simp add: late_index_nat late_bitmask_nat lbit_def and_exp_eq_0_iff_not_bit))

lemma same_pos_mod:
  assumes "(x :: nat) div 8 mod w = y div 8 mod w" and "x mod 8 = y mod 8"
  shows "x mod (8 * w) = y mod (8 * w)"
  using assms by ((simp add: mod_mult2_eq))

lemma pos_distinct:
  assumes "(a :: nat) < i" and "i < a + 8 * w"
  shows "\<not> (a div 8 mod w = i div 8 mod w \<and> a mod 8 = i mod 8)"
proof
  assume "a div 8 mod w = i div 8 mod w \<and> a mod 8 = i mod 8"
  then have "a mod (8 * w) = i mod (8 * w)" by (intro same_pos_mod) (simp_all)
  then have "(i - a) mod (8 * w) = 0"
    using assms(1) mod_eq_dvd_iff_nat [of a i "8 * w"] by ((simp add: less_imp_le_nat))
  moreover have "0 < i - a" "i - a < 8 * w" using assms by (simp_all)
  ultimately show False by (simp)
qed


lemma lbit_clear:
  assumes "q div 8 mod w < length lt"
  shows "lbit (lt[q div 8 mod w := lt ! (q div 8 mod w) AND NOT (2 ^ (q mod 8))]) w a
         = (lbit lt w a \<and> \<not> (a div 8 mod w = q div 8 mod w \<and> a mod 8 = q mod 8))"
  using assms
  by ((auto simp: lbit_def nth_list_update bit_and_iff bit_not_iff bit_exp_iff
      dest: bit_imp_le_length))

lemma lbit_set:
  assumes "i div 8 mod w < length lt"
  shows "lbit (lt[i div 8 mod w := lt ! (i div 8 mod w) OR 2 ^ (i mod 8)]) w a
         = (lbit lt w a \<or> (a div 8 mod w = i div 8 mod w \<and> a mod 8 = i mod 8))"
  using assms
  by ((auto simp: lbit_def nth_list_update bit_or_iff bit_exp_iff))


lemma unat_window_sum:
  assumes "unat (a :: 32 word) + 8 * unat (w :: 32 word) < 2 ^ 32"
  shows "unat (w * 8) = 8 * unat w" "unat (a + w * 8) = unat a + 8 * unat w"
proof -
  from assms have "unat w * 8 < 2 ^ 32" by (linarith)
  then show w8: "unat (w * 8) = 8 * unat w" by (simp add: unat_word_ariths)
  with assms show "unat (a + w * 8) = unat a + 8 * unat w" by (simp add: unat_word_ariths)
qed

lemma check_seqno_window_nat:
  assumes "unat (inseqno s) + 8 * unat (replaywin s) < 2 ^ 32"
  shows "check_seqno_window s q True =
     (if unat (inseqno s) + 8 * unat (replaywin s) \<le> unat q then
        (if farfuture s < drop_bit 2 (replaywin s)
         then (Inl FarFuture, s\<lparr>farfuture := farfuture s + 1\<rparr>)
         else (Inr (), s\<lparr>farfuture := farfuture s + 1,
                         late := replicate (unat (replaywin s)) 255
                                   @ drop (unat (replaywin s)) (late s)\<rparr>))
      else if unat q < unat (inseqno s) then
        (if (8 * unat (replaywin s) \<le> unat (inseqno s)
               \<and> unat q < unat (inseqno s) - 8 * unat (replaywin s))
            \<or> \<not> lbit (late s) (unat (replaywin s)) (unat q)
         then (Inl LateOrReplay, s) else (Inr (), s))
      else (Inr (), s\<lparr>late := mark_late (replaywin s) (late s) (inseqno s) q\<rparr>))"
proof -
  note u = unat_window_sum [OF assms]
  have a: "(inseqno s + replaywin s * 8 \<le> q) = (unat (inseqno s) + 8 * unat (replaywin s) \<le> unat q)"
    by (simp add: word_le_nat_alt u)
  have b: "(replaywin s * 8 \<le> inseqno s) = (8 * unat (replaywin s) \<le> unat (inseqno s))"
    by (simp add: word_le_nat_alt u)
  have c: "replaywin s * 8 \<le> inseqno s \<Longrightarrow>
       (q < inseqno s - replaywin s * 8) = (unat q < unat (inseqno s) - 8 * unat (replaywin s))"
    by (simp add: word_less_nat_alt unat_sub u)
  show ?thesis
    using c
    by (auto simp: check_seqno_window_def a b late_test word_less_nat_alt Let_def)
qed

lemma mark_late_length: "length (mark_late w lt i q) = length lt"
proof (induction w lt i q rule: mark_late.induct)
  case (1 w lt i q)
  then show ?case by (subst mark_late.simps, simp)
qed

lemma mark_late_keeps_clear:
  assumes "w \<noteq> 0" and "length lt = unat w" and "\<not> lbit lt (unat w) a"
    and "\<forall>j. unat i \<le> j \<and> j < unat q \<longrightarrow>
           \<not> (a div 8 mod unat w = j div 8 mod unat w \<and> a mod 8 = j mod 8)"
  shows "\<not> lbit (mark_late w lt i q) (unat w) a"
  using assms
proof (induction w lt i q rule: mark_late.induct)
  case (1 w lt i q)
  show ?case
  proof (cases "i < q")
    case False
    with "1.prems" show ?thesis by (subst mark_late.simps, simp)
  next
    case True
    then have lt: "unat i < unat q" by (simp add: word_less_nat_alt)
    have "unat q < 2 ^ 32" using unsigned_less [of q] by (simp)
    with lt have suc: "unat (i + 1) = Suc (unat i)" by (simp add: unat_word_ariths)
    have "0 < unat w" using "1.prems"(1) by (simp add: unat_gt_0)
    then have idx: "unat i div 8 mod unat w < length lt" using "1.prems"(2) by (simp)
    let ?lt = "lt[late_index w i := lt ! late_index w i OR late_bitmask i]"
    have "\<not> (a div 8 mod unat w = unat i div 8 mod unat w \<and> a mod 8 = unat i mod 8)"
      using "1.prems"(4) lt by (simp)
    with "1.prems"(3) have "\<not> lbit ?lt (unat w) a"
      by (simp add: late_index_nat late_bitmask_nat lbit_set [OF idx])
    moreover have "length ?lt = unat w" using "1.prems"(2) by (simp)
    moreover have "\<forall>j. unat (i + 1) \<le> j \<and> j < unat q \<longrightarrow>
           \<not> (a div 8 mod unat w = j div 8 mod unat w \<and> a mod 8 = j mod 8)"
      using "1.prems"(4) suc by (simp)
    ultimately have "\<not> lbit (mark_late w ?lt (i + 1) q) (unat w) a"
      using "1.IH" [OF True "1.prems"(1)] by (blast)
    with True show ?thesis by (subst mark_late.simps, simp)
  qed
qed


lemma late_clear_word:
  "lt[late_index w q := lt ! late_index w q AND NOT (late_bitmask q)] = late_clear lt (unat w) (unat q)"
  by (simp add: late_clear_def late_index_nat late_bitmask_nat)

lemma lbit_late_clear:
  assumes "0 < w" and "length lt = w"
  shows "lbit (late_clear lt w x) w a
         = (lbit lt w a \<and> \<not> (a div 8 mod w = x div 8 mod w \<and> a mod 8 = x mod 8))"
  unfolding late_clear_def using assms by (intro lbit_clear) (simp)

lemma length_late_clear: "length (late_clear lt w x) = length lt"
  by (simp add: late_clear_def)

lemma check_seqno_step:
  assumes inv: "replay_inv s A" and bound: "unat q + 8 * unat (replaywin s) + 1 < 2 ^ 32"
  shows "replay_inv (snd (sptps_check_seqno s q True))
           (case fst (sptps_check_seqno s q True) of Inl _ \<Rightarrow> A | Inr _ \<Rightarrow> insert q A)"
proof -
  from inv have w: "replaywin s \<noteq> 0" and len: "length (late s) = unat (replaywin s)"
    and nowrap: "unat (inseqno s) + 8 * unat (replaywin s) < 2 ^ 32"
    and old: "\<And>a. a \<in> A \<Longrightarrow> unat a < unat (inseqno s)"
    and clr: "\<And>a. a \<in> A \<Longrightarrow> unat (inseqno s) \<le> unat a + 8 * unat (replaywin s) \<Longrightarrow>
                 \<not> lbit (late s) (unat (replaywin s)) (unat a)"
    by (auto simp: replay_inv_def)
  have w0: "0 < unat (replaywin s)" using w by (simp add: unat_gt_0)
  have suc: "unat (q + 1) = unat q + 1"
    using bound by (simp add: unat_word_ariths)
  note win = check_seqno_window_nat [OF nowrap, of q]
  consider (eq) "q = inseqno s"
    | (far) "q \<noteq> inseqno s" "unat (inseqno s) + 8 * unat (replaywin s) \<le> unat q"
    | (past) "unat q < unat (inseqno s)"
    | (gap) "unat (inseqno s) < unat q" "unat q < unat (inseqno s) + 8 * unat (replaywin s)"
    by (metis linorder_neqE_nat not_le_imp_less word_unat_eq_iff)
  then show ?thesis
  proof cases
    case eq
    then have r: "sptps_check_seqno s q True =
        (Inr (), s\<lparr>late := late_clear (late s) (unat (replaywin s)) (unat q), farfuture := 0,
                   inseqno := q + 1,
                   received := (if q + 1 = 0 then 0 else received s + 1)\<rparr>)"
      using w by (simp add: sptps_check_seqno_def late_clear_word)
    have old': "\<And>a. a \<in> A \<Longrightarrow> unat a < Suc (unat (inseqno s))"
      using old by (simp add: less_SucI)
    show ?thesis
      unfolding r using w w0 len bound suc eq old' clr
      by (auto simp: replay_inv_def length_late_clear lbit_late_clear)
  next
    case far
    show ?thesis
    proof (cases "farfuture s < drop_bit 2 (replaywin s)")
      case True
      then have r: "sptps_check_seqno s q True = (Inl FarFuture, s\<lparr>farfuture := farfuture s + 1\<rparr>)"
        using w far by (simp add: sptps_check_seqno_def win)
      show ?thesis
        unfolding r using inv by (simp add: replay_inv_def)
    next
      case False
      have ge: "inseqno s \<le> q" using far(2) by (simp add: word_le_nat_alt)
      have r: "sptps_check_seqno s q True =
        (Inr (), s\<lparr>late := late_clear (replicate (unat (replaywin s)) 255)
                             (unat (replaywin s)) (unat q),
                   farfuture := 0, inseqno := q + 1,
                   received := (if q + 1 = 0 then 0 else received s + 1)\<rparr>)"
        using w far False ge len
        by (simp add: sptps_check_seqno_def win late_clear_word)
      have old': "unat a < Suc (unat q)" if "a \<in> A" for a
        using old [OF that] far(2) by (linarith)
      have out: "False" if "a \<in> A" "Suc (unat q) \<le> unat a + 8 * unat (replaywin s)" for a
        using old [OF that(1)] that(2) far(2) by (linarith)
      show ?thesis
        unfolding r using w w0 bound suc old' out
        by (auto simp: replay_inv_def length_late_clear lbit_late_clear)
    qed
  next
    case past
    then have ne: "q \<noteq> inseqno s" and nge: "\<not> inseqno s \<le> q"
      by (auto simp: word_le_nat_alt)
    show ?thesis
    proof (cases "(8 * unat (replaywin s) \<le> unat (inseqno s)
               \<and> unat q < unat (inseqno s) - 8 * unat (replaywin s))
            \<or> \<not> lbit (late s) (unat (replaywin s)) (unat q)")
      case True
      then have r: "sptps_check_seqno s q True = (Inl LateOrReplay, s)"
        using w ne past by (simp add: sptps_check_seqno_def win)
      show ?thesis unfolding r using inv by (simp)
    next
      case False
      then have r: "sptps_check_seqno s q True =
        (Inr (), s\<lparr>late := late_clear (late s) (unat (replaywin s)) (unat q), farfuture := 0,
                   received := (if inseqno s = 0 then 0 else received s + 1)\<rparr>)"
        using w ne past nge by (simp add: sptps_check_seqno_def win late_clear_word)
      show ?thesis
        unfolding r using w w0 len nowrap past old clr
        by (auto simp: replay_inv_def length_late_clear lbit_late_clear)
    qed
  next
    case gap
    then have ne: "q \<noteq> inseqno s" and ge: "inseqno s \<le> q"
      by (auto simp: word_le_nat_alt)
    let ?m = "mark_late (replaywin s) (late s) (inseqno s) q"
    have r: "sptps_check_seqno s q True =
        (Inr (), s\<lparr>late := late_clear ?m (unat (replaywin s)) (unat q), farfuture := 0,
                   inseqno := q + 1,
                   received := (if q + 1 = 0 then 0 else received s + 1)\<rparr>)"
      using w ne gap ge by (simp add: sptps_check_seqno_def win late_clear_word)
    have ml: "length ?m = unat (replaywin s)" by (simp add: mark_late_length len)
    have keep: "\<not> lbit ?m (unat (replaywin s)) (unat a)"
      if "a \<in> A" "unat q + 1 \<le> unat a + 8 * unat (replaywin s)" for a
    proof (rule mark_late_keeps_clear [OF w len])
      show "\<not> lbit (late s) (unat (replaywin s)) (unat a)"
        using clr [OF that(1)] that(2) gap by (simp)
      show "\<forall>j. unat (inseqno s) \<le> j \<and> j < unat q \<longrightarrow>
           \<not> (unat a div 8 mod unat (replaywin s) = j div 8 mod unat (replaywin s)
              \<and> unat a mod 8 = j mod 8)"
        using old [OF that(1)] that(2) by (intro allI impI pos_distinct) (simp_all)
    qed
    have old': "unat a < Suc (unat q)" if "a \<in> A" for a
      using old [OF that] gap(1) by (linarith)
    show ?thesis
      unfolding r using w w0 ml bound suc old' keep
      by (auto simp: replay_inv_def length_late_clear lbit_late_clear)
  qed
qed


lemma check_seqno_replaywin: "replaywin (snd (sptps_check_seqno s q u)) = replaywin s"
proof -
  have "replaywin (snd (check_seqno_window s q u)) = replaywin s"
    by (simp add: check_seqno_window_def Let_def)
  then show ?thesis
    by (cases "check_seqno_window s q u")
       (auto simp: sptps_check_seqno_def Let_def split: sum.splits)
qed

lemma replay_rejects:
  assumes inv: "replay_inv s A" and a: "a \<in> A"
  shows "sptps_check_seqno s a True = (Inl LateOrReplay, s)"
proof -
  from inv a have w: "replaywin s \<noteq> 0"
    and nowrap: "unat (inseqno s) + 8 * unat (replaywin s) < 2 ^ 32"
    and old: "unat a < unat (inseqno s)"
    and clr: "unat (inseqno s) \<le> unat a + 8 * unat (replaywin s) \<Longrightarrow>
                 \<not> lbit (late s) (unat (replaywin s)) (unat a)"
    by (auto simp: replay_inv_def)
  from old have ne: "a \<noteq> inseqno s" by (auto)
  have "(8 * unat (replaywin s) \<le> unat (inseqno s)
               \<and> unat a < unat (inseqno s) - 8 * unat (replaywin s))
            \<or> \<not> lbit (late s) (unat (replaywin s)) (unat a)"
    using clr by (cases "unat (inseqno s) \<le> unat a + 8 * unat (replaywin s)") (auto)
  then show ?thesis
    using w ne old
    by (simp add: sptps_check_seqno_def check_seqno_window_nat [OF nowrap])
qed

lemma history_inv:
  assumes "replay_inv s A" and "\<forall>q\<in>set qs. unat q + 8 * unat (replaywin s) + 1 < 2 ^ 32"
  shows "replay_inv (snd (check_seqnos s qs)) (A \<union> set (accepted_seqnos s qs))"
  using assms
proof (induction qs arbitrary: s A)
  case Nil
  then show ?case by (simp)
next
  case (Cons q qs)
  obtain r s1 where c: "sptps_check_seqno s q True = (r, s1)"
    by (cases "sptps_check_seqno s q True")
  have w1: "replaywin s1 = replaywin s"
    using check_seqno_replaywin [of s q True] c by (simp)
  have b: "unat q + 8 * unat (replaywin s) + 1 < 2 ^ 32" using Cons.prems(2) by (simp)
  have i1: "replay_inv s1 (case r of Inl _ \<Rightarrow> A | Inr _ \<Rightarrow> insert q A)"
    using check_seqno_step [OF Cons.prems(1) b] c by (simp)
  have "replay_inv (snd (check_seqnos s1 qs))
          ((case r of Inl _ \<Rightarrow> A | Inr _ \<Rightarrow> insert q A) \<union> set (accepted_seqnos s1 qs))"
    using i1 Cons.prems(2) w1 by (intro Cons.IH) (simp_all)
  then show ?case
    using c by (auto simp: Un_commute insert_commute split: sum.splits prod.splits)
qed

lemma lbit_zero: "0 < w \<Longrightarrow> \<not> lbit (replicate w 0) w x"
  by (simp add: lbit_def)

lemma fresh_window_inv:
  assumes "replaywin s \<noteq> 0" and "late s = replicate (unat (replaywin s)) 0"
    and "unat (inseqno s) + 8 * unat (replaywin s) < 2 ^ 32"
  shows "replay_inv s {a. a < inseqno s}"
  using assms by (simp add: replay_inv_def word_less_nat_alt lbit_zero unat_gt_0)

text \<open>With \<^verbatim>\<open>sptps_replaywin = 0\<close> the guard \<^verbatim>\<open>if(s->replaywin)\<close> disables the window: there
  is no replay protection to speak of, and a datagram record presented twice is delivered
  twice.\<close>

lemma replay_window_disabled:
  "delivered replay_off = [(128, []), (0, [104, 105]), (0, [104, 105])]"
  by code_simp

text \<open>With the window enabled (\<open>replaywin > 0\<close>), starting from the all-zero bitmap that
  \<^verbatim>\<open>sptps_start\<close> leaves, after any history of sequence numbers presented to
  \<^verbatim>\<open>sptps_check_seqno\<close> in which no \<open>inseqno + 8 * replaywin\<close> passes \<open>2^32\<close>, a sequence number
  that was accepted in the history, or consumed before it (below the initial \<open>inseqno\<close>), is
  rejected as \<open>LateOrReplay\<close> with the session unchanged; the datagram receive path then
  rejects every packet that carries it, leaves the session unchanged and delivers nothing.
  This is what the window does as long as the 32-bit sums do not wrap around.\<close>

lemma replay_rejected_without_wrap:
  assumes "replaywin s0 \<noteq> 0" and "late s0 = replicate (unat (replaywin s0)) 0"
    and "unat (inseqno s0) + 8 * unat (replaywin s0) < 2 ^ 32"
    and "\<forall>q\<in>set qs. unat q + 8 * unat (replaywin s0) + 1 < 2 ^ 32"
    and "a \<in> set (accepted_seqnos s0 qs) \<or> a < inseqno s0"
    and "s = snd (check_seqnos s0 qs)"
  shows "sptps_check_seqno s a True = (Inl LateOrReplay, s)
       \<and> (datagram s \<and> instate s \<and> state s \<noteq> SPTPS_ZERO \<and> rd32 data = a \<longrightarrow>
            sptps_receive_data e s data = (Inl ShortPacket, s)
          \<or> sptps_receive_data e s data = (Inl DecryptFailed, s)
          \<or> sptps_receive_data e s data = (Inl LateOrReplay, s))"
proof -
  have "replay_inv s ({a. a < inseqno s0} \<union> set (accepted_seqnos s0 qs))"
    unfolding assms(6) using fresh_window_inv [OF assms(1,2,3)] assms(4) by (rule history_inv)
  then have r: "sptps_check_seqno s a True = (Inl LateOrReplay, s)"
    using assms(5) by (intro replay_rejects) (auto)
  then show ?thesis
    by (auto simp: sptps_receive_data_def sptps_receive_data_datagram_def Let_def
        split: option.splits)
qed


lemma replay_rejected_example:
  "accepted_seqnos keyed_datagram [2, 3, 5] = [2, 3, 5]
   \<and> sptps_check_seqno (snd (check_seqnos keyed_datagram [2, 3, 5])) 3 True
       = (Inl LateOrReplay, snd (check_seqnos keyed_datagram [2, 3, 5]))
   \<and> sptps_check_seqno (snd (check_seqnos keyed_datagram [2, 3, 5])) 1 True
       = (Inl LateOrReplay, snd (check_seqnos keyed_datagram [2, 3, 5]))"
proof -
  have a: "accepted_seqnos keyed_datagram [2, 3, 5] = [2, 3, 5]"
    by code_simp
  have h: "replaywin keyed_datagram \<noteq> 0"
    "late keyed_datagram = replicate (unat (replaywin keyed_datagram)) 0"
    "unat (inseqno keyed_datagram) + 8 * unat (replaywin keyed_datagram) < 2 ^ 32"
    "\<forall>q\<in>set [2, 3, 5 :: 32 word]. unat q + 8 * unat (replaywin keyed_datagram) + 1 < 2 ^ 32"
    by (simp_all add: keyed_datagram_def sptps_zero_def)
  have m: "3 \<in> set (accepted_seqnos keyed_datagram [2, 3, 5]) \<or> 3 < inseqno keyed_datagram"
    "1 \<in> set (accepted_seqnos keyed_datagram [2, 3, 5]) \<or> 1 < inseqno keyed_datagram"
    by code_simp+
  show ?thesis
    using replay_rejected_without_wrap [OF h m(1) refl, of undefined toy_env]
      replay_rejected_without_wrap [OF h m(2) refl, of undefined toy_env] a
    by simp
qed

text \<open>C5 does not hold of the code. \<^verbatim>\<open>sptps_check_seqno\<close> compares the sequence number with
  \<^verbatim>\<open>s->inseqno + s->replaywin * 8\<close>, a sum of 32-bit unsigned numbers that wraps around once
  \<open>inseqno\<close> is within \<open>8 * replaywin\<close> of \<open>2^32\<close>. A datagram responder with the default window
  of 16 bytes accepts and delivers the record with sequence number \<open>2^32 - 32\<close> (the fifth time it
  is presented, after four far-future rejections), which leaves \<open>inseqno = 2^32 - 31\<close>. The sum
  is now 97, so the same record, presented again, is taken for a far-future one although it is
  below \<open>inseqno\<close> and its bit in the bitmap says received: it is rejected four times as
  \<open>FarFuture\<close>, each time incrementing \<open>farfuture\<close>, never as \<open>LateOrReplay\<close>, and the fifth
  time it is accepted and delivered a second time. The unchecked probe with
  \<open>update_state = false\<close>, as \<^verbatim>\<open>sptps_verify_datagram\<close> makes it, accepts it as well.\<close>

theorem replayed_seqno_wraparound:
  "fst (sptps_receive_data toy_env (wrap_session 4) wrap_packet) = Inr 23
   \<and> replay_view (wrap_session 5) = (4294967265, 0, [(128, []), (0, [104, 105])])
   \<and> fst (sptps_receive_data toy_env (wrap_session 5) wrap_packet) = Inl FarFuture
   \<and> replay_view (wrap_session 6) = (4294967265, 1, [(128, []), (0, [104, 105])])
   \<and> fst (sptps_receive_data toy_env (wrap_session 6) wrap_packet) = Inl FarFuture
   \<and> fst (sptps_receive_data toy_env (wrap_session 7) wrap_packet) = Inl FarFuture
   \<and> fst (sptps_receive_data toy_env (wrap_session 8) wrap_packet) = Inl FarFuture
   \<and> fst (sptps_check_seqno (wrap_session 9) 4294967264 False) = Inr ()
   \<and> fst (sptps_receive_data toy_env (wrap_session 9) wrap_packet) = Inr 23
   \<and> replay_view (wrap_session 10)
       = (4294967265, 0, [(128, []), (0, [104, 105]), (0, [104, 105])])"
  by code_simp

subsection \<open>Stream receive path: one record per call\<close>

lemma mask_hs_absorb:
  "mask_hs (s\<lparr>state := a1\<rparr>) = mask_hs s" "mask_hs (s\<lparr>key := a2\<rparr>) = mask_hs s"
  "mask_hs (s\<lparr>ecdh := a3\<rparr>) = mask_hs s" "mask_hs (s\<lparr>mykex := a4\<rparr>) = mask_hs s"
  "mask_hs (s\<lparr>hiskex := a5\<rparr>) = mask_hs s" "mask_hs (s\<lparr>cipher_suite := a6\<rparr>) = mask_hs s"
  "mask_hs (s\<lparr>incipher := a7\<rparr>) = mask_hs s" "mask_hs (s\<lparr>outcipher := a8\<rparr>) = mask_hs s"
  "mask_hs (s\<lparr>instate := a9\<rparr>) = mask_hs s" "mask_hs (s\<lparr>outstate := b1\<rparr>) = mask_hs s"
  "mask_hs (s\<lparr>outseqno := b2\<rparr>) = mask_hs s" "mask_hs (s\<lparr>sent := b3\<rparr>) = mask_hs s"
  "mask_hs (s\<lparr>rng := b4\<rparr>) = mask_hs s"
  by (simp_all add: mask_hs_def)

lemma mask_hs_of_out: "mask_out s' = mask_out s \<Longrightarrow> mask_hs s' = mask_hs s"
proof -
  assume a: "mask_out s' = mask_out s"
  have "mask_hs t = mask_hs (mask_out t)" for t
    by (simp add: mask_out_def mask_hs_absorb)
  from this [of s'] this [of s] a show ?thesis by simp
qed

lemma send_record_priv_mhs: "send_record_priv e s t d n = (r, s') \<Longrightarrow> mask_hs s' = mask_hs s"
  using send_record_priv_frame [of e s t d n] by (intro mask_hs_of_out) simp

lemma send_sig_mhs: "send_sig e s = (r, s') \<Longrightarrow> mask_hs s' = mask_hs s"
  using send_sig_frame [of e s] by (intro mask_hs_of_out) simp

lemma send_ack_mhs: "send_ack e s = (r, s') \<Longrightarrow> mask_hs s' = mask_hs s"
  using send_ack_frame [of e s] by (intro mask_hs_of_out) simp

lemma send_kex_mhs: "send_kex e s = (r, s') \<Longrightarrow> mask_hs s' = mask_hs s"
  by (auto simp: send_kex_def Let_def mask_hs_absorb
      split: if_splits option.splits prod.splits dest!: send_record_priv_mhs)

lemma receive_kex_mhs: "receive_kex e s d n = (r, s') \<Longrightarrow> mask_hs s' = mask_hs s"
  by (auto simp: receive_kex_def Let_def mask_hs_absorb
      split: if_splits option.splits dest!: send_sig_mhs)

lemma generate_key_material_mhs:
  "generate_key_material e s sh = (r, s') \<Longrightarrow> mask_hs s' = mask_hs s"
  by (auto simp: generate_key_material_def Let_def mask_hs_absorb split: option.splits)

lemma receive_sig_keys_mhs:
  assumes "receive_sig_keys e s1 sh = (r, s')"
  shows "mask_hs s' = mask_hs s1"
proof -
  obtain rg s2 where g: "generate_key_material e s1 sh = (rg, s2)"
    by (cases "generate_key_material e s1 sh")
  note h2 = generate_key_material_mhs [OF g]
  show ?thesis
  proof (cases rg)
    case (Inl x)
    with g assms h2 show ?thesis by (simp add: receive_sig_keys_def)
  next
    case rg: (Inr u)
    obtain r3 s3 where a: "(if \<not> initiator s2 then send_sig e s2 else (Inr (), s2)) = (r3, s3)"
      by (cases "if \<not> initiator s2 then send_sig e s2 else (Inr (), s2)")
    then have h3: "mask_hs s3 = mask_hs s2"
      by (auto split: if_splits dest!: send_sig_mhs)
    show ?thesis
    proof (cases r3)
      case (Inl x)
      with g rg a assms h2 h3 show ?thesis by (simp add: receive_sig_keys_def)
    next
      case r3: (Inr u3)
      obtain r5 s5 where b: "(if outstate (s3\<lparr>mykex := None, hiskex := None\<rparr>)
                              then send_ack e (s3\<lparr>mykex := None, hiskex := None\<rparr>)
                              else (Inr (), s3\<lparr>mykex := None, hiskex := None\<rparr>)) = (r5, s5)"
        by (cases "if outstate (s3\<lparr>mykex := None, hiskex := None\<rparr>)
                   then send_ack e (s3\<lparr>mykex := None, hiskex := None\<rparr>)
                   else (Inr (), s3\<lparr>mykex := None, hiskex := None\<rparr>)")
      then have h5: "mask_hs s5 = mask_hs s3"
        by (auto simp: mask_hs_absorb split: if_splits dest!: send_ack_mhs)
      from assms g rg a r3 b
      have "(case r5 of Inl x \<Rightarrow> (Inl x, s5)
             | Inr _ \<Rightarrow> (case cipher_init e (cipher_suite s5) (key s5) (\<not> initiator s5) of
                       None \<Rightarrow> (Inl CipherInitFailed,
                                                      s5\<lparr>outcipher := cipher_init_failed e
                                                         (cipher_suite s5) (outcipher s5)\<rparr>)
                     | Some ctx \<Rightarrow> (Inr (), s5\<lparr>outcipher := Some ctx\<rparr>))) = (r, s')"
        by (simp add: receive_sig_keys_def Let_def)
      then have "mask_hs s' = mask_hs s5"
        by (auto simp: mask_hs_absorb split: sum.splits option.splits)
      with h2 h3 h5 show ?thesis by simp
    qed
  qed
qed

lemma receive_sig_mhs:
  assumes "receive_sig e s d n = (r, s')"
  shows "mask_hs s' = mask_hs s"
proof (cases "s' = s")
  case True
  then show ?thesis by simp
next
  case False
  with assms obtain sh where "receive_sig_keys e (s\<lparr>ecdh := None\<rparr>) sh = (r, s')"
    by (auto simp: receive_sig_unfold split: if_splits option.splits)
  from receive_sig_keys_mhs [OF this] show ?thesis by (simp add: mask_hs_absorb)
qed

lemma receive_ack_mhs: "receive_ack e s d n = (r, s') \<Longrightarrow> mask_hs s' = mask_hs s"
  by (auto simp: receive_ack_def mask_hs_absorb split: if_splits option.splits)

lemma receive_handshake_kex_mhs:
  "receive_handshake_kex e s d n = (r, s') \<Longrightarrow> mask_hs s' = mask_hs s"
  by (auto simp: receive_handshake_kex_def mask_hs_absorb
      split: prod.splits sum.splits dest!: receive_kex_mhs)

lemma mask_hs_fields:
  assumes "mask_hs s' = mask_hs s"
  shows "delivered s' = delivered s" "inbuf s' = inbuf s" "buflen s' = buflen s"
    "reclen s' = reclen s" "inseqno s' = inseqno s" "received s' = received s"
    "replaywin s' = replaywin s" "farfuture s' = farfuture s" "late s' = late s"
    "datagram s' = datagram s" "initiator s' = initiator s" "label s' = label s"
    "cipher_suites s' = cipher_suites s" "preferred_suite s' = preferred_suite s"
  using arg_cong [OF assms, of delivered] arg_cong [OF assms, of inbuf]
    arg_cong [OF assms, of buflen] arg_cong [OF assms, of reclen]
    arg_cong [OF assms, of inseqno] arg_cong [OF assms, of received]
    arg_cong [OF assms, of replaywin] arg_cong [OF assms, of farfuture]
    arg_cong [OF assms, of late] arg_cong [OF assms, of datagram]
    arg_cong [OF assms, of initiator] arg_cong [OF assms, of label]
    arg_cong [OF assms, of cipher_suites] arg_cong [OF assms, of preferred_suite]
  by (simp_all add: mask_hs_def)

lemma mask_hsd_absorb:
  "mask_hsd (s\<lparr>state := a1\<rparr>) = mask_hsd s" "mask_hsd (s\<lparr>delivered := a2\<rparr>) = mask_hsd s"
  "mask_hsd (s\<lparr>outstate := a3\<rparr>) = mask_hsd s"
  by (simp_all add: mask_hsd_def mask_hs_def)

lemma mask_hsd_of_hs: "mask_hs s' = mask_hs s \<Longrightarrow> mask_hsd s' = mask_hsd s"
  by (simp add: mask_hsd_def)

lemma mask_hsd_fields:
  assumes "mask_hsd s' = mask_hsd s"
  shows "inbuf s' = inbuf s" "buflen s' = buflen s"
    "reclen s' = reclen s" "inseqno s' = inseqno s" "received s' = received s"
    "replaywin s' = replaywin s" "farfuture s' = farfuture s" "late s' = late s"
    "datagram s' = datagram s" "initiator s' = initiator s" "label s' = label s"
  using arg_cong [OF assms, of inbuf]
    arg_cong [OF assms, of buflen] arg_cong [OF assms, of reclen]
    arg_cong [OF assms, of inseqno] arg_cong [OF assms, of received]
    arg_cong [OF assms, of replaywin] arg_cong [OF assms, of farfuture]
    arg_cong [OF assms, of late] arg_cong [OF assms, of datagram]
    arg_cong [OF assms, of initiator] arg_cong [OF assms, of label]
  by (simp_all add: mask_hsd_def mask_hs_def)

lemma receive_handshake_frame:
  assumes "receive_handshake e s d n = (r, s')"
  shows "mask_hsd s' = mask_hsd s \<and> one_more s s'"
proof (cases "state s")
  case SPTPS_ZERO
  with assms show ?thesis by (simp add: receive_handshake_def one_more_def)
next
  case SPTPS_KEX
  with assms have "mask_hs s' = mask_hs s"
    by (auto simp: receive_handshake_def dest!: receive_handshake_kex_mhs)
  then show ?thesis using mask_hs_fields(1) [of s' s] mask_hsd_of_hs [of s' s] by (simp add: one_more_def)
next
  case SPTPS_SECONDARY_KEX
  with assms have "mask_hs s' = mask_hs s"
    by (auto simp: receive_handshake_def split: prod.splits sum.splits
        dest!: receive_handshake_kex_mhs send_kex_mhs)
  then show ?thesis using mask_hs_fields(1) [of s' s] mask_hsd_of_hs [of s' s] by (simp add: one_more_def)
next
  case SPTPS_SIG
  obtain r1 s1 where s1: "receive_sig e s d n = (r1, s1)" by (cases "receive_sig e s d n")
  note m1 = receive_sig_mhs [OF s1]
  obtain r2 s2 where s2: "receive_ack e (s1\<lparr>outstate := True\<rparr>) [] 0 = (r2, s2)"
    by (cases "receive_ack e (s1\<lparr>outstate := True\<rparr>) [] 0")
  from receive_ack_mhs [OF s2] m1 have m2: "mask_hs s2 = mask_hs s"
    by (simp add: mask_hs_absorb)
  from assms SPTPS_SIG s1 s2
  have "s' = s1 \<or> s' = s1\<lparr>state := SPTPS_ACK\<rparr> \<or> s' = s2
      \<or> s' = (snd (call_receive_record e s2 SPTPS_HANDSHAKE []))\<lparr>state := SPTPS_SECONDARY_KEX\<rparr>"
    by (auto simp: receive_handshake_def split: sum.splits if_splits)
  then show ?thesis
    using mask_hsd_of_hs [OF m1] mask_hsd_of_hs [OF m2] mask_hs_fields(1) [OF m1]
      mask_hs_fields(1) [OF m2]
    by (auto simp: one_more_def mask_hsd_absorb call_receive_record_def)
next
  case SPTPS_ACK
  obtain r1 s1 where s1: "receive_ack e s d n = (r1, s1)" by (cases "receive_ack e s d n")
  note m1 = receive_ack_mhs [OF s1]
  from assms SPTPS_ACK s1
  have "s' = s1
      \<or> s' = (snd (call_receive_record e s1 SPTPS_HANDSHAKE []))\<lparr>state := SPTPS_SECONDARY_KEX\<rparr>"
    by (auto simp: receive_handshake_def split: sum.splits)
  then show ?thesis
    using mask_hsd_of_hs [OF m1] mask_hs_fields(1) [OF m1]
    by (auto simp: one_more_def mask_hsd_absorb call_receive_record_def)
qed

lemma dispatch_record_frame:
  assumes "dispatch_record e s t d n = (r, s')"
  shows "mask_hsd s' = mask_hsd s \<and> one_more s s'"
  using assms receive_handshake_frame [of e s d n r s']
  by (auto simp: dispatch_record_def call_receive_record_def one_more_def mask_hsd_absorb
      split: if_splits)


lemma record_toread_le: "record_toread s d \<le> length d"
  by (simp add: record_toread_def Let_def)

lemma toread_prefix:
  assumes "rt = (if c then length d else min m (length d))" and "rt < length d"
  shows "(if c then length (take rt d @ rest) else min m (length (take rt d @ rest))) = rt"
  using assms by (cases c) (simp_all add: min_def split: if_splits)

lemma toread_take:
  assumes "rt = (if c then length d else min m (length (d :: 'a list)))"
  shows "(if c then length (take rt d) else min m (length (take rt d))) = rt"
  using assms by (cases c) (simp_all add: min_def)

lemma record_toread_prefix:
  "record_toread s d < length d \<Longrightarrow>
   record_toread s (take (record_toread s d) d @ rest) = record_toread s d"
  unfolding record_toread_def Let_def by (rule toread_prefix [OF refl])

lemma record_toread_take: "record_toread s (take (record_toread s d) d) = record_toread s d"
  unfolding record_toread_def Let_def by (rule toread_take [OF refl])

lemma receive_data_record_alt:
  "receive_data_record e s d k =
     (if buflen s + record_toread s d
           < unat (reclen s) + (if instate s then SPTPS_OVERHEAD else SPTPS_HEADER)
      then (Inr (k + record_toread s d),
            s\<lparr>inbuf := memcpy_at (inbuf s) (buflen s) (take (record_toread s d) d),
              buflen := buflen s + record_toread s d\<rparr>)
      else process_record e
            (s\<lparr>inbuf := memcpy_at (inbuf s) (buflen s) (take (record_toread s d) d),
               buflen := buflen s + record_toread s d\<rparr>)
            (k + record_toread s d))"
  by (simp add: receive_data_record_def record_toread_def Let_def)

lemma receive_data_record_take:
  "receive_data_record e s d k = receive_data_record e s (take (record_toread s d) d) k"
  by (simp only: receive_data_record_alt [of e s "take (record_toread s d) d"]
        receive_data_record_alt [of e s d] record_toread_take take_take min.idem)

lemma dispatch_finish:
  assumes "(case dispatch_record e s4 t d m of
              (Inl x, s5) \<Rightarrow> (Inl x, s5) | (Inr _, s5) \<Rightarrow> (Inr k, s5\<lparr>buflen := 0\<rparr>)) = (r, s')"
  shows "inseqno s' = inseqno s4 \<and> one_more s4 s' \<and> (\<forall>n. r = Inr n \<longrightarrow> n = k \<and> buflen s' = 0)"
proof -
  obtain r5 s5 where d: "dispatch_record e s4 t d m = (r5, s5)"
    by (cases "dispatch_record e s4 t d m")
  from dispatch_record_frame [OF d] have f: "mask_hsd s5 = mask_hsd s4" "one_more s4 s5"
    by simp_all
  from assms d have "s' = s5 \<or> s' = s5\<lparr>buflen := 0\<rparr>"
    "\<forall>n. r = Inr n \<longrightarrow> s' = s5\<lparr>buflen := 0\<rparr> \<and> n = k"
    by (auto split: sum.splits)
  then show ?thesis
    using mask_hsd_fields(4) [OF f(1)] f(2) by (auto simp: one_more_def)
qed

lemma process_record_result:
  assumes "process_record e s k = (r, s')"
  shows "inseqno s' = inseqno s + 1 \<and> one_more s s' \<and> (\<forall>n. r = Inr n \<longrightarrow> n = k \<and> buflen s' = 0)"
  using assms
  by (auto simp: process_record_def Let_def one_more_def
      split: option.splits if_splits dest!: dispatch_finish)

lemma receive_data_record_result:
  assumes "receive_data_record e s d k = (r, s')"
  shows "(inseqno s' = inseqno s \<or> inseqno s' = inseqno s + 1) \<and> one_more s s'
       \<and> (\<forall>n. r = Inr n \<longrightarrow> n = k + record_toread s d
             \<and> (record_toread s d < length d \<longrightarrow> inseqno s' = inseqno s + 1 \<and> buflen s' = 0))"
proof -
  define need where "need = unat (reclen s) + (if instate s then SPTPS_OVERHEAD else SPTPS_HEADER)"
  define s1 where "s1 = s\<lparr>inbuf := memcpy_at (inbuf s) (buflen s) (take (record_toread s d) d),
                 buflen := buflen s + record_toread s d\<rparr>"
  have u: "receive_data_record e s d k =
      (if buflen s1 < need then (Inr (k + record_toread s d), s1)
       else process_record e s1 (k + record_toread s d))"
    by (simp add: receive_data_record_def record_toread_def need_def s1_def Let_def)
  show ?thesis
  proof (cases "buflen s1 < need")
    case True
    then have "\<not> record_toread s d < length d"
      by (auto simp: s1_def need_def record_toread_def Let_def min_def split: if_splits)
    with True assms u show ?thesis by (auto simp: s1_def one_more_def)
  next
    case False
    with assms u have "process_record e s1 (k + record_toread s d) = (r, s')" by simp
    from process_record_result [OF this] show ?thesis
      by (auto simp: s1_def one_more_def)
  qed
qed

lemma receive_data_record_prefix:
  assumes "receive_data_record e s d k = (Inr n, s')" and "n < k + length d"
  shows "receive_data_record e s (take (n - k) d @ rest) k = (Inr n, s')"
proof -
  from receive_data_record_result [OF assms(1)] have n: "n = k + record_toread s d" by simp
  with assms(2) have lt: "record_toread s d < length d" by simp
  have "receive_data_record e s (take (record_toread s d) d @ rest) k
        = receive_data_record e s (take (record_toread s d) d) k"
    by (subst receive_data_record_take) (simp add: record_toread_prefix [OF lt] record_toread_le)
  also have "\<dots> = receive_data_record e s d k"
    by (rule receive_data_record_take [symmetric])
  finally show ?thesis using assms(1) n by simp
qed

lemma rdr_incomplete:
  assumes "buflen s + length d < unat (reclen s) + (if instate s then SPTPS_OVERHEAD else SPTPS_HEADER)"
  shows "receive_data_record e s d k =
           (Inr (k + length d),
            s\<lparr>inbuf := memcpy_at (inbuf s) (buflen s) d, buflen := buflen s + length d\<rparr>)"
proof -
  have "record_toread s d = length d"
    using assms by (auto simp add: record_toread_def Let_def min_def)
  with assms show ?thesis by (simp add: receive_data_record_alt)
qed

lemma rdr_complete:
  assumes "need = unat (reclen s) + (if instate s then SPTPS_OVERHEAD else SPTPS_HEADER)"
    and "need \<le> buflen s + length d" and "buflen s \<le> need"
  shows "receive_data_record e s d k =
           process_record e
             (s\<lparr>inbuf := memcpy_at (inbuf s) (buflen s) (take (need - buflen s) d),
                buflen := need\<rparr>)
             (k + (need - buflen s))"
proof -
  have "record_toread s d = need - buflen s"
    using assms by (auto simp add: record_toread_def Let_def min_def)
  with assms show ?thesis by (simp add: receive_data_record_alt)
qed

lemma rdr_overrun:
  assumes "unat (reclen s) + (if instate s then SPTPS_OVERHEAD else SPTPS_HEADER) < buflen s"
  shows "receive_data_record e s d k =
           process_record e
             (s\<lparr>inbuf := memcpy_at (inbuf s) (buflen s) d, buflen := buflen s + length d\<rparr>)
             (k + length d)"
proof -
  have "record_toread s d = length d"
    using assms by (simp add: record_toread_def Let_def)
  with assms show ?thesis by (simp add: receive_data_record_alt)
qed

lemma process_record_facts:
  assumes "process_record e s1 k = (r, s')"
    and "inseqno s1 = q" and "delivered s1 = dl"
  shows "inseqno s' = q + 1 \<and> (delivered s' = dl \<or> (\<exists>x. delivered s' = dl @ [x]))
       \<and> (\<forall>n. r = Inr n \<longrightarrow> n = k \<and> buflen s' = 0)"
  using process_record_result [OF assms(1)] assms(2,3) by (simp add: one_more_def)

text \<open>C9: in stream mode one call of \<^verbatim>\<open>sptps_receive_data\<close> processes at most one record, and
  stops at its end. Let \<open>need\<close> be the length of the record being reassembled, as the call
  computes it: the length field (read from the first two bytes, some of which may come with this
  call) plus 19 bytes of header and tag when records are encrypted, plus 3 otherwise. While buffer
  and input together hold fewer than \<open>need\<close> bytes the call buffers all of the input, processes
  nothing and returns its length. Otherwise it processes exactly one record (\<open>inseqno\<close> advances
  by one, at most one delivery is logged); when it succeeds it returns the number of bytes that
  completed the record, \<open>need - buflen\<close>, with \<open>buflen\<close> reset to 0; and result and state do not
  depend on the input beyond those bytes, which the call never examines: the caller must call
  again with the unconsumed tail for the later records.\<close>

theorem stream_one_record_per_call:
  assumes nd: "\<not> datagram s" and st: "state s \<noteq> SPTPS_ZERO"
    and call: "sptps_receive_data e s data = (r, s')"
    and need: "need = (if buflen s < 2
                     then unat (rd16 (memcpy_at (inbuf s) (buflen s) (take (2 - buflen s) data)))
                     else unat (reclen s))
                  + (if instate s then SPTPS_OVERHEAD else SPTPS_HEADER)"
  shows "(buflen s + length data < need \<longrightarrow>
            r = Inr (length data) \<and> buflen s' = buflen s + length data
          \<and> inseqno s' = inseqno s \<and> delivered s' = delivered s)
       \<and> (need \<le> buflen s + length data \<longrightarrow>
            inseqno s' = inseqno s + 1
          \<and> (delivered s' = delivered s \<or> (\<exists>x. delivered s' = delivered s @ [x]))
          \<and> (\<forall>n. r = Inr n \<longrightarrow>
                 n = (if need < buflen s then length data else need - buflen s) \<and> buflen s' = 0)
          \<and> (buflen s \<le> need \<longrightarrow>
                (\<forall>rest. sptps_receive_data e s (take (need - buflen s) data @ rest) = (r, s'))))"
proof (cases "buflen s < 2")
  case False
  then have n: "need = unat (reclen s) + (if instate s then SPTPS_OVERHEAD else SPTPS_HEADER)"
    using need by simp
  have u: "sptps_receive_data e s dd = receive_data_record e s dd 0" for dd
    using nd st False by (simp add: sptps_receive_data_def)
  consider (inc) "buflen s + length data < need"
    | (com) "need \<le> buflen s + length data" "buflen s \<le> need"
    | (ovr) "need < buflen s"
    by linarith
  then show ?thesis
  proof cases
    case inc
    with call u [of data] rdr_incomplete [of s data e 0] n show ?thesis by auto
  next
    case com
    let ?s1 = "s\<lparr>inbuf := memcpy_at (inbuf s) (buflen s) (take (need - buflen s) data),
                  buflen := need\<rparr>"
    have p: "process_record e ?s1 (0 + (need - buflen s)) = (r, s')"
      using call u [of data] rdr_complete [OF n com, of e 0] by simp
    have ind: "sptps_receive_data e s (take (need - buflen s) data @ rest) = (r, s')" for rest
    proof -
      have "need \<le> buflen s + length (take (need - buflen s) data @ rest)"
        using com by simp
      from rdr_complete [OF n this com(2), of e 0] p u [of "take (need - buflen s) data @ rest"]
      show ?thesis using com by simp
    qed
    from process_record_facts [OF p, of "inseqno s" "delivered s"] ind com show ?thesis
      by auto
  next
    case ovr
    let ?s1 = "s\<lparr>inbuf := memcpy_at (inbuf s) (buflen s) data, buflen := buflen s + length data\<rparr>"
    have p: "process_record e ?s1 (0 + length data) = (r, s')"
      using call u [of data] rdr_overrun [of s e data 0] ovr n by simp
    from process_record_facts [OF p, of "inseqno s" "delivered s"] ovr show ?thesis
      by auto
  qed
next
  case True
  have n3: "3 \<le> need" using need by (simp add: SPTPS_OVERHEAD_def SPTPS_HEADER_def)
  show ?thesis
  proof (cases "buflen s + length data < 2")
    case short: True
    then have "sptps_receive_data e s data =
        (Inr (length data),
         s\<lparr>inbuf := memcpy_at (inbuf s) (buflen s) data, buflen := buflen s + length data\<rparr>)"
      using nd st True by (auto simp add: sptps_receive_data_def Let_def min_def)
    with call n3 short show ?thesis by auto
  next
    case long: False
    define t1 where "t1 = 2 - buflen s"
    define s3 where "s3 = s\<lparr>buflen := 2,
                    reclen := rd16 (memcpy_at (inbuf s) (buflen s) (take t1 data)),
                    inbuf := fix_len (need - (if instate s then SPTPS_OVERHEAD else SPTPS_HEADER)
                                          + SPTPS_OVERHEAD)
                                   (memcpy_at (inbuf s) (buflen s) (take t1 data))\<rparr>"
    have t1: "0 < t1" "t1 \<le> length data" "buflen s + t1 = 2"
      using True long by (simp_all add: t1_def)
    have n: "need = unat (reclen s3) + (if instate s3 then SPTPS_OVERHEAD else SPTPS_HEADER)"
      using need True by (simp add: s3_def t1_def)
    have b3: "buflen s3 = 2" "inseqno s3 = inseqno s" "delivered s3 = delivered s"
      by (simp_all add: s3_def)
    have u: "sptps_receive_data e s dd =
        (if drop t1 dd = [] then (Inr t1, s3) else receive_data_record e s3 (drop t1 dd) t1)"
      if "take t1 dd = take t1 data" "t1 \<le> length dd" for dd
      using nd st True that t1 need
      by (simp add: sptps_receive_data_def Let_def min_def s3_def t1_def)
    show ?thesis
    proof (cases "drop t1 data = []")
      case exact: True
      then have "length data = t1" using t1 by simp
      with call u [of data] exact t1 n3 b3 show ?thesis by auto
    next
      case more: False
      have c: "receive_data_record e s3 (drop t1 data) t1 = (r, s')"
        using call u [of data] more t1 by simp
      show ?thesis
      proof (cases "buflen s + length data < need")
        case inc: True
        then have "buflen s3 + length (drop t1 data) < need" using t1 b3 by simp
        from rdr_incomplete [of s3 "drop t1 data" e t1] this n c t1 b3 inc show ?thesis
          by auto
      next
        case com: False
        have c1: "need \<le> buflen s3 + length (drop t1 data)" "buflen s3 \<le> need"
          using com t1 b3 n3 by simp_all
        let ?s1 = "s3\<lparr>inbuf := memcpy_at (inbuf s3) (buflen s3) (take (need - buflen s3) (drop t1 data)),
                      buflen := need\<rparr>"
        have p: "process_record e ?s1 (t1 + (need - buflen s3)) = (r, s')"
          using c rdr_complete [OF n c1, of e t1] by simp
        have k: "t1 + (need - buflen s3) = need - buflen s"
          using t1 b3 n3 by simp
        have ind: "sptps_receive_data e s (take (need - buflen s) data @ rest) = (r, s')" for rest
        proof -
          let ?dd = "take (need - buflen s) data @ rest"
          have a1: "take t1 ?dd = take t1 data" using t1 n3 com by simp
          have a2: "t1 \<le> length ?dd" using t1 n3 com by simp
          have a3: "drop t1 ?dd = take (need - 2) (drop t1 data) @ rest"
            using t1 n3 com by (simp add: drop_take)
          have a4: "take (need - 2) (drop t1 data) \<noteq> []"
            using more n3 by simp
          have a5: "need \<le> buflen s3 + length (take (need - 2) (drop t1 data) @ rest)"
            using c1 b3 by simp
          have l: "length (take (need - 2) (drop t1 data)) = need - 2"
            using c1 b3 by simp
          have tk: "take (need - buflen s3) (take (need - 2) (drop t1 data) @ rest)
                    = take (need - buflen s3) (drop t1 data)"
            using l b3 by simp
          have a4': "(take (need - 2) (drop t1 data) @ rest = []) = False"
            using a4 by simp
          have "sptps_receive_data e s ?dd
                = receive_data_record e s3 (take (need - 2) (drop t1 data) @ rest) t1"
            unfolding u [OF a1 a2] a3 a4' by (rule if_False)
          also have "\<dots> = process_record e ?s1 (t1 + (need - buflen s3))"
            using rdr_complete [OF n a5 c1(2), of e t1] by (simp only: tk)
          also have "\<dots> = (r, s')" by (rule p)
          finally show ?thesis .
        qed
        have nb: "\<not> need < buflen s" "buflen s \<le> need" using n3 True by simp_all
        from process_record_facts [OF p, of "inseqno s" "delivered s"] b3 k ind com nb
        show ?thesis by auto
      qed
    qed
  qed
qed

lemma two_records_first:
  "stream_view (sptps_receive_data toy_env keyed_stream two_records)
     = (Inr 21, [(128, []), (0, [104, 105])], 0, 3)"
  by code_simp

lemma two_records_second:
  "stream_view (sptps_receive_data toy_env
       (snd (sptps_receive_data toy_env keyed_stream two_records)) (drop 21 two_records))
     = (Inr 20, [(128, []), (0, [104, 105]), (1, [33])], 0, 4)"
  by code_simp

theorem stream_one_record_per_call_witness:
  "fst (sptps_receive_data toy_env keyed_stream two_records) = Inr 21
   \<and> length two_records = 41
   \<and> buflen (snd (sptps_receive_data toy_env keyed_stream two_records)) = 0
   \<and> inseqno (snd (sptps_receive_data toy_env keyed_stream two_records))
       = inseqno keyed_stream + 1
   \<and> delivered (snd (sptps_receive_data toy_env keyed_stream two_records))
       = [(128, []), (0, [104, 105])]
   \<and> sptps_receive_data toy_env keyed_stream (take 21 two_records @ [9, 9, 9])
       = sptps_receive_data toy_env keyed_stream two_records
   \<and> delivered (snd (sptps_receive_data toy_env
         (snd (sptps_receive_data toy_env keyed_stream two_records)) (drop 21 two_records)))
       = [(128, []), (0, [104, 105]), (1, [33])]"
proof -
  have nd: "\<not> datagram keyed_stream" by code_simp
  have st: "state keyed_stream \<noteq> SPTPS_ZERO" by code_simp
  have b: "buflen keyed_stream = 0" by code_simp
  have need: "21 = (if buflen keyed_stream < 2
                     then unat (rd16 (memcpy_at (inbuf keyed_stream) (buflen keyed_stream)
                                        (take (2 - buflen keyed_stream) two_records)))
                     else unat (reclen keyed_stream))
                  + (if instate keyed_stream then SPTPS_OVERHEAD else SPTPS_HEADER)"
    by code_simp
  have len: "length two_records = 41" by (simp add: two_records_def)
  obtain r s' where c: "sptps_receive_data toy_env keyed_stream two_records = (r, s')"
    by (cases "sptps_receive_data toy_env keyed_stream two_records")
  with two_records_first have r: "r = Inr 21" "delivered s' = [(128, []), (0, [104, 105])]"
    by (simp_all add: stream_view_def)
  from stream_one_record_per_call [OF nd st c need] b len r(1)
  have "inseqno s' = inseqno keyed_stream + 1 \<and> buflen s' = 0
      \<and> sptps_receive_data toy_env keyed_stream (take 21 two_records @ [9, 9, 9]) = (r, s')"
    by simp
  with c r len two_records_second show ?thesis
    by (simp add: stream_view_def)
qed

subsection \<open>Stream mode: round trip\<close>

lemma cipher_encrypt_length:
  "cipher_encrypt e su c q inp = Some ct \<Longrightarrow> length ct = length inp + 16"
  by (auto simp: cipher_encrypt_def fix_len_def split: option.splits if_splits)

lemma unat_len16: "n < 65536 \<Longrightarrow> unat (of_nat n :: 16 word) = n"
  by (simp add: unat_of_nat)

lemma sptps_send_record_stream:
  assumes "\<not> datagram s" and "outstate s" and "t < 128" and "length d < 65536"
    and "cipher_encrypt e (cipher_suite s) (outcipher s) (outseqno s) (t # d) = Some ct"
  shows "snd (sptps_send_record e s t d (of_nat (length d)))
         = s\<lparr>outseqno := outseqno s + 1,
             sent := sent s @ [(t, le16 (of_nat (length d)) @ ct)]\<rparr>"
  using assms cipher_encrypt_length [OF assms(5)]
  by (simp add: sptps_send_record_def send_record_priv_def Let_def SPTPS_HANDSHAKE_def
        unat_len16 le16_def call_send_data_def SPTPS_OVERHEAD_def)

lemma stream_wire_simps:
  "stream_wire E q [] = []"
  "stream_wire E q (rec # recs) = stream_frame E q rec @ stream_wire E (q + 1) recs"
  by (simp_all add: stream_wire_def)

lemma send_all_frames:
  assumes "\<not> datagram s" and "outstate s"
    and "\<forall>rec\<in>set recs. fst rec < 128 \<and> length (snd rec) < 65536"
    and "\<forall>q pt. cipher_encrypt e (cipher_suite s) (outcipher s) q pt \<noteq> None"
  shows "sent (send_all e s recs)
         = sent s @ stream_frames (cipher_encrypt e (cipher_suite s) (outcipher s)) (outseqno s) recs"
  using assms
proof (induction recs arbitrary: s)
  case Nil
  then show ?case by simp
next
  case (Cons rec recs)
  obtain t d where rec: "rec = (t, d)" by (cases rec)
  from Cons.prems(4) obtain ct
    where ct: "cipher_encrypt e (cipher_suite s) (outcipher s) (outseqno s) (t # d) = Some ct"
    by blast
  define s1 where "s1 = s\<lparr>outseqno := outseqno s + 1,
           sent := sent s @ [(t, le16 (of_nat (length d)) @ ct)]\<rparr>"
  have s1: "snd (sptps_send_record e s t d (of_nat (length d))) = s1"
    unfolding s1_def using Cons.prems(1,2,3) ct rec
    by (intro sptps_send_record_stream) simp_all
  have fr: "stream_frame (cipher_encrypt e (cipher_suite s) (outcipher s)) (outseqno s) rec
            = le16 (of_nat (length d)) @ ct"
    using ct rec by (simp add: stream_frame_def)
  have ih: "sent (send_all e s1 recs)
      = sent s1 @ stream_frames (cipher_encrypt e (cipher_suite s1) (outcipher s1)) (outseqno s1) recs"
    using Cons.prems by (intro Cons.IH) (simp_all add: s1_def)
  show ?case
    using ih fr rec s1 by (simp add: s1_def)
qed

lemma send_all_wire:
  assumes "\<not> datagram s" and "outstate s"
    and "\<forall>rec\<in>set recs. fst rec < 128 \<and> length (snd rec) < 65536"
    and "\<forall>q pt. cipher_encrypt e (cipher_suite s) (outcipher s) q pt \<noteq> None"
  shows "concat (map snd (drop (length (sent s)) (sent (send_all e s recs))))
         = stream_wire (cipher_encrypt e (cipher_suite s) (outcipher s)) (outseqno s) recs"
  by (simp add: send_all_frames [OF assms] stream_wire_def)


lemma length_le16: "length (le16 w) = 2"
  by (simp add: le16_def)

lemma rd16_le16: "rd16 (le16 w @ xs) = w"
proof -
  have "ucast (ucast w :: byte) OR push_bit 8 (ucast (ucast (drop_bit 8 w) :: byte)) = w"
    by (rule bit_word_eqI) (auto simp: bit_simps)
  then show ?thesis by (simp add: rd16_def le16_def)
qed

lemma process_record_app:
  assumes "instate s1" and ib: "inbuf s1 = le16 (of_nat (length d)) @ ct"
    and rl: "reclen s1 = of_nat (length d)" and dl: "length d < 65536"
    and cl: "length ct = length d + 17"
    and dec: "cipher_decrypt e (cipher_suite s1) (incipher s1) (inseqno s1) ct = Some (t # d)"
    and t: "t < 128" and cb: "receive_record e (delivered s1) t d"
  shows "\<exists>B. length B = length (inbuf s1)
           \<and> process_record e s1 n
               = (Inr n, s1\<lparr>inseqno := inseqno s1 + 1, inbuf := B,
                            delivered := delivered s1 @ [(t, d)], buflen := 0\<rparr>)"
proof -
  define P where "P = le16 (of_nat (length d)) @ t # d @ drop (Suc (length d)) ct"
  define B where "B = P[length d + 3 := 0]"
  have u: "unat (reclen s1) = length d" using rl dl by (simp add: unat_len16)
  have a: "take (length d + 17) (drop 2 (inbuf s1)) = ct"
    using cl by (simp add: ib length_le16)
  have b: "memcpy_at (inbuf s1) 2 (t # d) = P"
    by (simp add: memcpy_at_def ib length_le16 P_def)
  have c: "P ! 2 = t" "B ! 2 = t" "take (length d) (drop 3 B) = d"
    by (simp_all add: B_def P_def le16_def numeral_3_eq_3 numeral_2_eq_2 list_update_append)
  have lB: "length B = length (inbuf s1)"
    using cl by (simp add: B_def P_def ib length_le16)
  have "process_record e s1 n
        = (Inr n, s1\<lparr>inseqno := inseqno s1 + 1, inbuf := B,
                     delivered := delivered s1 @ [(t, d)], buflen := 0\<rparr>)"
    using assms(1) dec t cb c
    by (simp add: process_record_def Let_def u a b B_def [symmetric] SPTPS_HEADER_def
          dispatch_record_def SPTPS_HANDSHAKE_def call_receive_record_def)
  with lB show ?thesis by blast
qed

lemma memcpy_at_length: "off + length src \<le> length buf \<Longrightarrow> length (memcpy_at buf off src) = length buf"
  by (simp add: memcpy_at_def)

lemma memcpy_at_take:
  "off \<le> length buf \<Longrightarrow> take (off + length src) (memcpy_at buf off src) = take off buf @ src"
  by (simp add: memcpy_at_def)

lemma memcpy_at_prefix:
  assumes "take j buf = take j f" and "src = take (length src) (drop j f)"
    and "j + length src \<le> length buf"
  shows "take (j + length src) (memcpy_at buf j src) = take (j + length src) f"
proof -
  have "take (j + length src) (memcpy_at buf j src) = take j buf @ src"
    using assms(3) by (intro memcpy_at_take) simp
  also have "\<dots> = take j f @ take (length src) (drop j f)"
    using assms(1,2) by simp
  also have "\<dots> = take (j + length src) f"
    by (simp add: take_add)
  finally show ?thesis .
qed

lemma rd16_take2: "take 2 b = le16 w \<Longrightarrow> rd16 b = w"
proof -
  assume a: "take 2 b = le16 w"
  have "b = take 2 b @ drop 2 b" by simp
  then have "rd16 b = rd16 (le16 w @ drop 2 b)" using a by simp
  then show ?thesis by (simp add: rd16_le16)
qed

lemma frame_shape:
  assumes "rx_ok e E r"
  obtains ct where "stream_frame E q (t, d) = le16 (of_nat (length d)) @ ct"
    and "length ct = length d + 17"
    and "cipher_decrypt e (cipher_suite r) (incipher r) q ct = Some (t # d)"
proof -
  from assms obtain ct where "E q (t # d) = Some ct" "length ct = length (t # d) + 16"
    "cipher_decrypt e (cipher_suite r) (incipher r) q ct = Some (t # d)"
    unfolding rx_ok_def by blast
  then show ?thesis by (intro that [of ct]) (simp_all add: stream_frame_def)
qed

lemma rdr_step:
  assumes ok: "rx_ok e E r" and f: "f = stream_frame E (inseqno r) (t, d)"
    and t: "t < 128" and dl: "length d < 65536"
    and at: "rx_at r f j" and j2: "2 \<le> j" and jl: "j < length f"
    and m: "m = min (length data) (length f - j)" and cp: "take m data = take m (drop j f)"
  shows "\<exists>r'. receive_data_record e r data k = (Inr (k + m), r') \<and> rx_ok e E r'
              \<and> rx_step r r' f (j + m) (t, d)"
proof -
  from frame_shape [OF ok, of "inseqno r" t d] f obtain ct
    where fr: "f = le16 (of_nat (length d)) @ ct" and cl: "length ct = length d + 17"
      and dec: "cipher_decrypt e (cipher_suite r) (incipher r) (inseqno r) ct = Some (t # d)"
    by auto
  have lf: "length f = length d + 19" using fr cl by (simp add: length_le16)
  have b: "buflen r = j" "take j (inbuf r) = take j f" "unat (reclen r) + 19 = length f"
    "length (inbuf r) = length f"
    using at j2 by (simp_all add: rx_at_def)
  have inst: "instate r" "\<not> datagram r" "state r \<noteq> SPTPS_ZERO"
    using ok by (simp_all add: rx_ok_def)
  have need: "length f = unat (reclen r) + (if instate r then SPTPS_OVERHEAD else SPTPS_HEADER)"
    using b inst by (simp add: SPTPS_OVERHEAD_def)
  show ?thesis
  proof (cases "j + length data < length f")
    case True
    then have mm: "m = length data" using m by simp
    define r' where "r' = r\<lparr>inbuf := memcpy_at (inbuf r) (buflen r) data,
                             buflen := buflen r + length data\<rparr>"
    have "buflen r + length data
          < unat (reclen r) + (if instate r then SPTPS_OVERHEAD else SPTPS_HEADER)"
      using True need b by simp
    from rdr_incomplete [OF this, of e k]
    have c: "receive_data_record e r data k = (Inr (k + m), r')"
      by (simp add: mm r'_def)
    have o: "rx_ok e E r'" using ok by (simp add: rx_ok_def r'_def)
    have d1: "data = take (length data) (drop j f)" using cp mm by simp
    have "take (j + length data) (memcpy_at (inbuf r) j data) = take (j + length data) f"
      using b(2) d1 True b(4) by (intro memcpy_at_prefix) simp_all
    moreover have "length (memcpy_at (inbuf r) j data) = length f"
      using True b(4) by (simp add: memcpy_at_length)
    ultimately have "rx_at r' f (j + m)"
      using b j2 by (simp add: rx_at_def r'_def mm)
    then have "rx_step r r' f (j + m) (t, d)"
      using True by (simp add: rx_step_def mm r'_def)
    with c o show ?thesis by blast
  next
    case False
    then have mm: "m = length f - j" "j + m = length f" using m jl by simp_all
    define s1 where "s1 = r\<lparr>inbuf := memcpy_at (inbuf r) (buflen r) (take (length f - buflen r) data),
                             buflen := length f\<rparr>"
    have c1: "length f \<le> buflen r + length data" "buflen r \<le> length f"
      using False jl b by simp_all
    from rdr_complete [OF need c1, of e k]
    have c: "receive_data_record e r data k = process_record e s1 (k + m)"
      by (simp add: s1_def mm b)
    have src: "take m data = take (length (take m data)) (drop j f)"
      using cp mm False by simp
    have lsrc: "length (take m data) = m" using mm False by simp
    have "take (j + length (take m data)) (memcpy_at (inbuf r) j (take m data))
          = take (j + length (take m data)) f"
      using b(2) src lsrc mm b(4) by (intro memcpy_at_prefix) simp_all
    moreover have "length (memcpy_at (inbuf r) j (take m data)) = length f"
      using lsrc mm b(4) by (simp add: memcpy_at_length)
    ultimately have i1: "memcpy_at (inbuf r) j (take m data) = f"
      using lsrc mm by simp
    have ib: "inbuf s1 = le16 (of_nat (length d)) @ ct"
      using i1 fr by (simp add: s1_def b mm)
    have ur: "unat (reclen r) = length d" using b(3) lf by simp
    have "reclen r = of_nat (unat (reclen r))" by simp
    then have "reclen r = of_nat (length d)" unfolding ur .
    then have rl: "reclen s1 = of_nat (length d)" by (simp add: s1_def)
    have dec1: "cipher_decrypt e (cipher_suite s1) (incipher s1) (inseqno s1) ct = Some (t # d)"
      using dec by (simp add: s1_def)
    have cb: "receive_record e (delivered s1) t d" using ok by (simp add: rx_ok_def)
    have i1s: "instate s1" using inst by (simp add: s1_def)
    from process_record_app [OF i1s ib rl dl cl dec1 t cb, of "k + m"]
    obtain B where B: "length B = length (inbuf s1)"
      "process_record e s1 (k + m)
         = (Inr (k + m), s1\<lparr>inseqno := inseqno s1 + 1, inbuf := B,
                            delivered := delivered s1 @ [(t, d)], buflen := 0\<rparr>)"
      by blast
    define r' where "r' = s1\<lparr>inseqno := inseqno s1 + 1, inbuf := B,
                            delivered := delivered s1 @ [(t, d)], buflen := 0\<rparr>"
    have o: "rx_ok e E r'" using ok by (simp add: rx_ok_def r'_def s1_def)
    have "length B = length f" using B(1) ib fr by simp
    then have "rx_step r r' f (j + m) (t, d)"
      using mm lf by (simp add: rx_step_def r'_def s1_def)
    with c B(2) o show ?thesis unfolding r'_def by auto
  qed
qed

lemma stream_step:
  assumes ok: "rx_ok e E r" and f: "f = stream_frame E (inseqno r) (t, d)"
    and t: "t < 128" and dl: "length d < 65536"
    and at: "rx_at r f j" and jl: "j < length f"
    and m: "m = min (length data) (length f - j)" and cp: "take m data = take m (drop j f)"
  shows "\<exists>r'. sptps_receive_data e r data = (Inr m, r') \<and> rx_ok e E r'
              \<and> rx_step r r' f (j + m) (t, d)"
proof (cases "2 \<le> j")
  case True
  have st: "\<not> datagram r" "state r \<noteq> SPTPS_ZERO" using ok by (simp_all add: rx_ok_def)
  have "buflen r = j" using at by (simp add: rx_at_def)
  then have "sptps_receive_data e r data = receive_data_record e r data 0"
    using st True by (simp add: sptps_receive_data_def)
  with rdr_step [OF ok f t dl at True jl m cp, of 0] show ?thesis by simp
next
  case False
  from frame_shape [OF ok, of "inseqno r" t d] f obtain ct
    where fr: "f = le16 (of_nat (length d)) @ ct" and cl: "length ct = length d + 17"
    by auto
  have lf: "length f = length d + 19" using fr cl by (simp add: length_le16)
  have st: "\<not> datagram r" "state r \<noteq> SPTPS_ZERO" "instate r" using ok by (simp_all add: rx_ok_def)
  have b: "buflen r = j" "take j (inbuf r) = take j f" "2 \<le> length (inbuf r)"
    using at False by (simp_all add: rx_at_def)
  show ?thesis
  proof (cases "j + length data < 2")
    case short: True
    then have mm: "m = length data" using m lf by simp
    define r' where "r' = r\<lparr>inbuf := memcpy_at (inbuf r) (buflen r) data,
                             buflen := buflen r + length data\<rparr>"
    have c: "sptps_receive_data e r data = (Inr m, r')"
      using st short b(1) False
      by (auto simp add: sptps_receive_data_def Let_def min_def r'_def mm)
    have o: "rx_ok e E r'" using ok by (simp add: rx_ok_def r'_def)
    have d1: "data = take (length data) (drop j f)" using cp mm by simp
    have "take (j + length data) (memcpy_at (inbuf r) j data) = take (j + length data) f"
      using b(2) d1 short b(3) by (intro memcpy_at_prefix) simp_all
    moreover have "length (memcpy_at (inbuf r) j data) = length (inbuf r)"
      using short b(3) by (simp add: memcpy_at_length)
    ultimately have "rx_at r' f (j + m)"
      using b short by (simp add: rx_at_def r'_def mm)
    then have "rx_step r r' f (j + m) (t, d)"
      using short lf by (simp add: rx_step_def mm r'_def)
    with c o show ?thesis by blast
  next
    case long: False
    define t1 where "t1 = 2 - j"
    define b1 where "b1 = memcpy_at (inbuf r) j (take t1 data)"
    define s3 where "s3 = r\<lparr>buflen := 2, reclen := rd16 b1,
                             inbuf := fix_len (unat (rd16 b1) + SPTPS_OVERHEAD) b1\<rparr>"
    have t1: "0 < t1" "t1 \<le> length data" "j + t1 = 2" "t1 \<le> m"
      using False long m lf by (auto simp: t1_def min_def)
    have u: "sptps_receive_data e r data =
        (if drop t1 data = [] then (Inr t1, s3) else receive_data_record e s3 (drop t1 data) t1)"
      using st False long b(1)
      by (auto simp add: sptps_receive_data_def Let_def min_def s3_def b1_def t1_def)
    have lsrc: "length (take t1 data) = t1" using t1 by simp
    have src: "take t1 data = take (length (take t1 data)) (drop j f)"
    proof -
      have "take t1 data = take t1 (take m data)" using t1 by (simp add: min_def)
      also have "\<dots> = take t1 (drop j f)" using cp t1 by (simp add: min_def)
      finally have x: "take t1 data = take t1 (drop j f)" .
      show ?thesis unfolding lsrc by (rule x)
    qed
    have "take (j + length (take t1 data)) b1 = take (j + length (take t1 data)) f"
      unfolding b1_def using b(2) src lsrc t1 b(3) by (intro memcpy_at_prefix) simp_all
    then have tk: "take 2 b1 = take 2 f" using lsrc t1 by simp
    have l1: "length b1 = length (inbuf r)"
      unfolding b1_def using lsrc t1 b(3) by (simp add: memcpy_at_length)
    have "take 2 b1 = le16 (of_nat (length d))" using tk fr by (simp add: length_le16)
    then have rd: "rd16 b1 = of_nat (length d)" by (rule rd16_take2)
    have ul: "unat (of_nat (length d) :: 16 word) = length d" using dl by (rule unat_len16)
    have at3: "rx_at s3 f 2"
      using tk l1 b(3) lf by (simp add: rx_at_def s3_def rd ul fix_len_def SPTPS_OVERHEAD_def)
    have o3: "rx_ok e E s3" using ok by (simp add: rx_ok_def s3_def)
    have same3: "inseqno s3 = inseqno r" "delivered s3 = delivered r" by (simp_all add: s3_def)
    show ?thesis
    proof (cases "drop t1 data = []")
      case True
      then have "length data = t1" using t1 by simp
      then have mm: "m = t1" "j + m = 2" using m lf t1 by simp_all
      have "rx_step r s3 f (j + m) (t, d)"
        using at3 same3 lf by (simp add: rx_step_def mm(2))
      with u True o3 mm show ?thesis by auto
    next
      case more: False
      define m' where "m' = min (length (drop t1 data)) (length f - 2)"
      have mm: "m = t1 + m'" using m t1 lf by (auto simp: m'_def min_def)
      have cp': "take m' (drop t1 data) = take m' (drop 2 f)"
      proof -
        have "take m' (drop t1 data) = drop t1 (take m data)"
          by (simp add: mm drop_take)
        also have "\<dots> = drop t1 (take m (drop j f))" using cp by simp
        also have "\<dots> = take m' (drop (t1 + j) f)" by (simp add: mm drop_take)
        finally show ?thesis using t1 by (simp add: add.commute)
      qed
      have f3: "f = stream_frame E (inseqno s3) (t, d)" using f same3 by simp
      have l2: "2 < length f" using lf by simp
      from rdr_step [OF o3 f3 t dl at3 order_refl l2 m'_def cp', of t1]
      obtain r' where r': "receive_data_record e s3 (drop t1 data) t1 = (Inr (t1 + m'), r')"
        "rx_ok e E r'" "rx_step s3 r' f (2 + m') (t, d)"
        by blast
      have "j + m = 2 + m'" using mm t1 by simp
      with r'(3) same3 have "rx_step r r' f (j + m) (t, d)"
        by (simp add: rx_step_def)
      with u more r' mm show ?thesis by auto
    qed
  qed
qed

lemma frame_length: "0 < length (stream_frame E q rec)"
  by (simp add: stream_frame_def length_le16)

lemma frame_nonempty: "stream_frame E q rec \<noteq> []"
  by (simp add: stream_frame_def le16_def)

lemma pump_ok:
  assumes "rx_ok e E r" and "\<forall>rec\<in>set recs. fst rec < 128 \<and> length (snd rec) < 65536"
    and "rx_pos E r recs j"
    and "take (length data) (drop j (stream_wire E (inseqno r) recs)) = data"
  shows "\<exists>r' n j'. pump e r data = (Inr (), r') \<and> rx_ok e E r' \<and> rx_pos E r' (drop n recs) j'
           \<and> delivered r' = delivered r @ take n recs
           \<and> drop j' (stream_wire E (inseqno r') (drop n recs))
               = drop (length data) (drop j (stream_wire E (inseqno r) recs))"
  using assms
proof (induction "length data" arbitrary: data r recs j rule: less_induct)
  case less
  show ?case
  proof (cases "data = []")
    case True
    have "pump e r data = (Inr (), r)" using True by (simp add: pump.simps)
    moreover have "rx_pos E r (drop 0 recs) j" using less.prems(3) by simp
    moreover have "delivered r = delivered r @ take 0 recs" by simp
    moreover have "drop j (stream_wire E (inseqno r) (drop 0 recs))
        = drop (length data) (drop j (stream_wire E (inseqno r) recs))" using True by simp
    ultimately show ?thesis using less.prems(1) by blast
  next
    case ne: False
    have "recs \<noteq> []"
    proof
      assume "recs = []"
      with less.prems(4) have "data = []" by (simp add: stream_wire_simps)
      with ne show False by simp
    qed
    then obtain t d rest where recs: "recs = (t, d) # rest"
      by (cases recs) auto
    define f where "f = stream_frame E (inseqno r) (t, d)"
    define W1 where "W1 = stream_wire E (inseqno r + 1) rest"
    have pos: "j < length f" "rx_at r f j"
      using less.prems(3) by (simp_all add: rx_pos_def recs f_def)
    have W: "drop j (stream_wire E (inseqno r) recs) = drop j f @ W1"
      using pos by (simp add: recs stream_wire_simps f_def W1_def)
    have pre: "take (length data) (drop j f @ W1) = data" using less.prems(4) W by simp
    define m where "m = min (length data) (length f - j)"
    have m0: "0 < m" using ne pos by (simp add: m_def)
    have cp: "take m data = take m (drop j f)"
    proof -
      have "take m data = take m (take (length data) (drop j f @ W1))" using pre by simp
      also have "\<dots> = take m (drop j f @ W1)" by (simp add: m_def min_def)
      also have "\<dots> = take m (drop j f)" by (simp add: m_def)
      finally show ?thesis .
    qed
    have td: "t < 128" "length d < 65536" using less.prems(2) by (simp_all add: recs)
    from stream_step [OF less.prems(1) f_def td pos(2) pos(1) m_def cp]
    obtain r1 where r1: "sptps_receive_data e r data = (Inr m, r1)" "rx_ok e E r1"
      "rx_step r r1 f (j + m) (t, d)"
      by blast
    have p: "pump e r data = pump e r1 (drop m data)"
      using ne m0 r1(1) by (subst pump.simps) simp
    show ?thesis
    proof (cases "j + m < length f")
      case True
      then have ml: "m = length data" by (auto simp: m_def min_def split: if_splits)
      have s: "rx_at r1 f (j + m)" "inseqno r1 = inseqno r" "delivered r1 = delivered r"
        using r1(3) True by (simp_all add: rx_step_def)
      have "pump e r data = (Inr (), r1)" using p ml by (simp add: pump.simps)
      moreover have "rx_pos E r1 (drop 0 recs) (j + m)"
        using s True by (simp add: rx_pos_def recs f_def)
      moreover have "delivered r1 = delivered r @ take 0 recs" using s by simp
      moreover have "drop (j + m) (stream_wire E (inseqno r1) (drop 0 recs))
          = drop (length data) (drop j (stream_wire E (inseqno r) recs))"
        using s ml by (simp add: add.commute)
      ultimately show ?thesis using r1(2) by blast
    next
      case False
      then have mf: "m = length f - j" "j + m = length f"
        using pos by (auto simp: m_def min_def split: if_splits)
      have s: "buflen r1 = 0" "2 \<le> length (inbuf r1)" "inseqno r1 = inseqno r + 1"
        "delivered r1 = delivered r @ [(t, d)]"
        using r1(3) False by (simp_all add: rx_step_def)
      have pos1: "rx_pos E r1 rest 0"
        using s by (cases rest) (simp_all add: rx_pos_def rx_at_def frame_nonempty)
      have dW: "drop m (drop j f @ W1) = W1" using mf pos by simp
      have pre1: "take (length (drop m data)) (drop 0 (stream_wire E (inseqno r1) rest))
                  = drop m data"
      proof -
        have "drop m data = drop m (take (length data) (drop j f @ W1))" using pre by simp
        also have "\<dots> = take (length data - m) (drop m (drop j f @ W1))"
          by (simp only: drop_take)
        also have "\<dots> = take (length data - m) W1" by (simp only: dW)
        finally have "take (length data - m) W1 = drop m data" by (rule sym)
        then show ?thesis by (simp only: length_drop drop_0 s(3) W1_def)
      qed
      have lt: "length (drop m data) < length data" using m0 ne by simp
      have c2: "\<forall>rec\<in>set rest. fst rec < 128 \<and> length (snd rec) < 65536"
        using less.prems(2) by (simp add: recs)
      from less.hyps [OF lt r1(2) c2 pos1 pre1]
      obtain r' n j' where r': "pump e r1 (drop m data) = (Inr (), r')" "rx_ok e E r'"
        "rx_pos E r' (drop n rest) j'" "delivered r' = delivered r1 @ take n rest"
        "drop j' (stream_wire E (inseqno r') (drop n rest))
           = drop (length (drop m data)) (drop 0 (stream_wire E (inseqno r1) rest))"
        by blast
      have "drop (length (drop m data)) W1 = drop (length data) (drop j f @ W1)"
      proof -
        have "m \<le> length data" by (simp add: m_def)
        then have "drop (length data) (drop j f @ W1)
                   = drop (length data - m) (drop m (drop j f @ W1))"
          by (simp only: drop_drop) simp
        then show ?thesis by (simp only: dW) simp
      qed
      then have rem: "drop j' (stream_wire E (inseqno r') (drop (Suc n) recs))
          = drop (length data) (drop j (stream_wire E (inseqno r) recs))"
        using r'(5) s(3) W by (simp add: recs W1_def)
      have "pump e r data = (Inr (), r')" using p r'(1) by simp
      moreover have "rx_pos E r' (drop (Suc n) recs) j'" using r'(3) by (simp add: recs)
      moreover have "delivered r' = delivered r @ take (Suc n) recs"
        using r'(4) s(4) by (simp add: recs)
      ultimately show ?thesis using r'(2) rem by blast
    qed
  qed
qed

lemma feed_ok:
  assumes "rx_ok e E r" and "\<forall>rec\<in>set recs. fst rec < 128 \<and> length (snd rec) < 65536"
    and "rx_pos E r recs j"
    and "take (length (concat chunks)) (drop j (stream_wire E (inseqno r) recs)) = concat chunks"
  shows "\<exists>r' n j'. feed e r chunks = (Inr (), r') \<and> rx_ok e E r' \<and> rx_pos E r' (drop n recs) j'
           \<and> delivered r' = delivered r @ take n recs
           \<and> drop j' (stream_wire E (inseqno r') (drop n recs))
               = drop (length (concat chunks)) (drop j (stream_wire E (inseqno r) recs))"
  using assms
proof (induction chunks arbitrary: r recs j)
  case Nil
  have "feed e r [] = (Inr (), r)" by simp
  moreover have "rx_pos E r (drop 0 recs) j" using Nil.prems(3) by simp
  moreover have "delivered r = delivered r @ take 0 recs" by simp
  moreover have "drop j (stream_wire E (inseqno r) (drop 0 recs))
      = drop (length (concat ([] :: bytes list))) (drop j (stream_wire E (inseqno r) recs))"
    by simp
  ultimately show ?case using Nil.prems(1) by blast
next
  case (Cons c cs)
  define W where "W = drop j (stream_wire E (inseqno r) recs)"
  have pre: "take (length c + length (concat cs)) W = c @ concat cs"
    using Cons.prems(4) by (simp add: W_def)
  have prec: "take (length c) W = c"
  proof -
    have "take (length c) W = take (length c) (take (length c + length (concat cs)) W)"
      by (simp add: min_def)
    also have "\<dots> = take (length c) (c @ concat cs)" by (simp only: pre)
    finally show ?thesis by simp
  qed
  from pump_ok [OF Cons.prems(1,2,3) prec [unfolded W_def]]
  obtain r1 n1 j1 where r1: "pump e r c = (Inr (), r1)" "rx_ok e E r1"
    "rx_pos E r1 (drop n1 recs) j1" "delivered r1 = delivered r @ take n1 recs"
    "drop j1 (stream_wire E (inseqno r1) (drop n1 recs)) = drop (length c) W"
    unfolding W_def by blast
  have c2: "\<forall>rec\<in>set (drop n1 recs). fst rec < 128 \<and> length (snd rec) < 65536"
    using Cons.prems(2) by (meson in_set_dropD)
  have pre1: "take (length (concat cs)) (drop j1 (stream_wire E (inseqno r1) (drop n1 recs)))
              = concat cs"
  proof -
    have "take (length (concat cs)) (drop (length c) W)
          = drop (length c) (take (length c + length (concat cs)) W)"
      by (simp add: drop_take add.commute)
    also have "\<dots> = concat cs" by (simp only: pre) simp
    finally show ?thesis by (simp only: r1(5))
  qed
  from Cons.IH [OF r1(2) c2 r1(3) pre1]
  obtain r' n j' where r': "feed e r1 cs = (Inr (), r')" "rx_ok e E r'"
    "rx_pos E r' (drop n (drop n1 recs)) j'" "delivered r' = delivered r1 @ take n (drop n1 recs)"
    "drop j' (stream_wire E (inseqno r') (drop n (drop n1 recs)))
       = drop (length (concat cs)) (drop j1 (stream_wire E (inseqno r1) (drop n1 recs)))"
    by blast
  have "feed e r (c # cs) = (Inr (), r')" using r1(1) r'(1) by simp
  moreover have "rx_pos E r' (drop (n1 + n) recs) j'" using r'(3) by (simp add: add.commute)
  moreover have "delivered r' = delivered r @ take (n1 + n) recs"
    using r'(4) r1(4) by (simp add: take_add)
  moreover have "drop j' (stream_wire E (inseqno r') (drop (n1 + n) recs))
      = drop (length (concat (c # cs))) (drop j (stream_wire E (inseqno r) recs))"
    using r'(5) r1(5) by (simp add: W_def ac_simps)
  ultimately show ?case using r'(2) by blast
qed

lemma toy_pairing:
  assumes "c1 \<noteq> None" and "c2 \<noteq> None" and "su1 \<in> set (aead_suites toy_env)"
    and "su2 \<in> set (aead_suites toy_env)"
  shows "\<forall>q pt. \<exists>ct. cipher_encrypt toy_env su1 c1 q pt = Some ct
                  \<and> cipher_decrypt toy_env su2 c2 q ct = Some pt"
proof (intro allI)
  fix q :: "32 word" and pt :: bytes
  from assms(1,2) obtain k1 k2 where k: "c1 = Some k1" "c2 = Some k2" by auto
  have e: "cipher_encrypt toy_env su1 c1 q pt = Some (pt @ replicate 16 0)"
    using assms(3) k by (simp add: cipher_encrypt_def toy_env_def fix_len_def)
  have d: "cipher_decrypt toy_env su2 c2 q (pt @ replicate 16 0) = Some pt"
    using assms(4) k by (simp add: cipher_decrypt_def toy_env_def fix_len_def)
  show "\<exists>ct. cipher_encrypt toy_env su1 c1 q pt = Some ct
             \<and> cipher_decrypt toy_env su2 c2 q ct = Some pt"
    using e d by blast
qed

text \<open>C3: the stream-mode round trip. A sender in stream mode with \<open>outstate\<close> calls
  \<^verbatim>\<open>sptps_send_record\<close> for a list of records (application types, below 128, which are the
  ones the function sends; payloads whose length fits the 16-bit \<open>len\<close>). The frames it hands
  to \<^verbatim>\<open>send_data\<close> are concatenated and cut into chunks in any way, and each chunk is fed to
  the peer's \<^verbatim>\<open>sptps_receive_data\<close>, calling again with the unconsumed tail. The peer is a
  started stream session at a record boundary, keyed: its inbound sequence number is the
  sender's outbound one and its inbound cipher decrypts what the sender's outbound cipher
  encrypts; its \<^verbatim>\<open>receive_record\<close> callback accepts. Then every call succeeds, and the
  deliveries logged are exactly the records sent, with the same type and payload, in the same
  order.\<close>

theorem stream_round_trip:
  assumes "\<not> datagram s" and "outstate s"
    and "\<forall>rec\<in>set recs. fst rec < 128 \<and> length (snd rec) < 65536"
    and "\<not> datagram r" and "state r \<noteq> SPTPS_ZERO" and "instate r"
    and "buflen r = 0" and "2 \<le> length (inbuf r)" and "inseqno r = outseqno s"
    and "\<forall>q pt. \<exists>ct. cipher_encrypt es (cipher_suite s) (outcipher s) q pt = Some ct
                  \<and> cipher_decrypt er (cipher_suite r) (incipher r) q ct = Some pt"
    and "\<forall>log t d. receive_record er log t d"
    and "concat chunks = concat (map snd (drop (length (sent s)) (sent (send_all es s recs))))"
  shows "\<exists>r'. feed er r chunks = (Inr (), r') \<and> delivered r' = delivered r @ recs"
proof -
  define E where "E = cipher_encrypt es (cipher_suite s) (outcipher s)"
  have enc: "\<forall>q pt. cipher_encrypt es (cipher_suite s) (outcipher s) q pt \<noteq> None"
    using assms(10) by (metis option.distinct(1))
  have wire: "concat chunks = stream_wire E (inseqno r) recs"
    unfolding E_def assms(9) assms(12) by (rule send_all_wire [OF assms(1,2,3) enc])
  have ok: "rx_ok er E r"
    unfolding rx_ok_def E_def
    using assms(4,5,6,10,11) by (metis cipher_encrypt_length)
  have pos: "rx_pos E r recs 0"
    using assms(7,8) by (cases recs) (simp_all add: rx_pos_def rx_at_def frame_nonempty)
  have pre: "take (length (concat chunks)) (drop 0 (stream_wire E (inseqno r) recs))
             = concat chunks"
    by (simp add: wire)
  from feed_ok [OF ok assms(3) pos pre]
  obtain r' n j' where r': "feed er r chunks = (Inr (), r')" "rx_pos E r' (drop n recs) j'"
    "delivered r' = delivered r @ take n recs"
    "drop j' (stream_wire E (inseqno r') (drop n recs))
       = drop (length (concat chunks)) (drop 0 (stream_wire E (inseqno r) recs))"
    by blast
  have e: "drop j' (stream_wire E (inseqno r') (drop n recs)) = []"
    using r'(4) by (simp add: wire)
  have "drop n recs = []"
  proof (cases "drop n recs")
    case Nil
    then show ?thesis .
  next
    case (Cons rec rest)
    with r'(2) have "j' < length (stream_frame E (inseqno r') rec)" by (simp add: rx_pos_def)
    then have "drop j' (stream_wire E (inseqno r') (drop n recs)) \<noteq> []"
      by (simp add: Cons stream_wire_simps)
    with e show ?thesis by simp
  qed
  then have "take n recs = recs" by simp
  with r' show ?thesis by simp
qed

theorem stream_round_trip_witness:
  "concat round_trip_chunks = two_records
   \<and> fst (feed toy_env keyed_stream round_trip_chunks) = Inr ()
   \<and> delivered (snd (feed toy_env keyed_stream round_trip_chunks))
       = [(128, []), (0, [104, 105]), (1, [33])]"
proof -
  have s: "\<not> datagram keyed_sender" "outstate keyed_sender"
    by code_simp+
  have recs: "\<forall>rec\<in>set round_trip_records. fst rec < 128 \<and> length (snd rec) < 65536"
    by (simp add: round_trip_records_def)
  have r: "\<not> datagram keyed_stream" "state keyed_stream \<noteq> SPTPS_ZERO" "instate keyed_stream"
    "buflen keyed_stream = 0" "2 \<le> length (inbuf keyed_stream)"
    "inseqno keyed_stream = outseqno keyed_sender"
    by code_simp+
  have c: "outcipher keyed_sender \<noteq> None" "incipher keyed_stream \<noteq> None"
    "cipher_suite keyed_sender \<in> set (aead_suites toy_env)"
    "cipher_suite keyed_stream \<in> set (aead_suites toy_env)"
    by code_simp+
  have cb: "\<forall>log t d. receive_record toy_env log t d"
    by (simp add: toy_env_def)
  have w: "concat round_trip_chunks
           = concat (map snd (drop (length (sent keyed_sender))
                (sent (send_all toy_env keyed_sender round_trip_records))))"
    by code_simp
  have d: "delivered keyed_stream = [(128, [])]" by code_simp
  have cc: "concat round_trip_chunks = two_records" by code_simp
  from stream_round_trip [OF s recs r toy_pairing [OF c(1,2,3,4)] cb w]
  obtain r' where "feed toy_env keyed_stream round_trip_chunks = (Inr (), r')"
    "delivered r' = delivered keyed_stream @ round_trip_records"
    by blast
  with d cc show ?thesis by (simp add: round_trip_records_def)
qed

end
